theory Spec2Isabelle
  imports Main "HOL-Library.Sublist"
begin

section \<open>Strings and character classes\<close>

text \<open>
  A JavaScript string is modelled as a \<^typ>\<open>string\<close>: each \<^typ>\<open>char\<close> stands for the
  code unit of the same number (0 to 255).  The classes below are those of the JavaScript
  regular-expression engine, cut down to that range: \<open>\s\<close> is the white space and line
  terminator set (tab, LF, VT, FF, CR, space, NBSP), \<open>\d\<close> is \<open>[0-9]\<close>, \<open>\w\<close> is
  \<open>[A-Za-z0-9_]\<close>, and the dot matches everything but LF and CR.
\<close>

definition isSpace :: "char \<Rightarrow> bool" where
  "isSpace c = (c = CHR 0x09 \<or> c = CHR 0x0A \<or> c = CHR 0x0B \<or> c = CHR 0x0C \<or> c = CHR 0x0D
                \<or> c = CHR 0x20 \<or> c = CHR 0xA0)"

definition isDigit :: "char \<Rightarrow> bool" where
  "isDigit c = (let n = (of_char c :: nat) in 48 \<le> n \<and> n \<le> 57)"

definition isLetter :: "char \<Rightarrow> bool" where
  "isLetter c = (let n = (of_char c :: nat) in (65 \<le> n \<and> n \<le> 90) \<or> (97 \<le> n \<and> n \<le> 122))"

definition isWord :: "char \<Rightarrow> bool" where
  "isWord c = (isLetter c \<or> isDigit c \<or> c = CHR ''_'')"

definition isLineTerm :: "char \<Rightarrow> bool" where
  "isLineTerm c = (c = CHR 0x0A \<or> c = CHR 0x0D)"

definition isDot :: "char \<Rightarrow> bool" where
  "isDot c = (\<not> isLineTerm c)"



section \<open>A backtracking matcher for the regular expressions of the source\<close>

text \<open>
  The source delegates all its pattern matching to the JavaScript \<open>RegExp\<close> engine.  The
  engine is modelled by a matcher that returns, for a pattern and a position, the list of
  all ways the pattern can match there, in the order in which a backtracking engine tries
  them: the head of the list is the match that \<open>exec\<close> and \<open>replace\<close> report.

  A position is the code unit before it (if any), the text that remains, and the text
  captured by group 1 (no pattern of the source has more than one group).
\<close>

datatype regex =
    Eps
  | Chr char
  | Cls "char \<Rightarrow> bool"
  | Seq regex regex
  | Alt regex regex
  | Star regex
  | Lazy regex
  | Grp regex
  | WordB
  | Eol
  | Behind "char \<Rightarrow> bool"

type_synonym pos = "char option \<times> string \<times> string option"

definition lastOf :: "char option \<Rightarrow> string \<Rightarrow> char option" where
  "lastOf p m = (if m = [] then p else Some (last m))"

definition setCap :: "string \<Rightarrow> pos \<Rightarrow> pos" where
  "setCap s q = (case q of (p, r, g) \<Rightarrow> (p, r, Some (take (length s - length r) s)))"

definition shorter :: "pos \<Rightarrow> pos \<Rightarrow> bool" where
  "shorter q q' = (length (fst (snd q)) < length (fst (snd q')))"

definition wordAt :: "char option \<Rightarrow> bool" where
  "wordAt p = (case p of None \<Rightarrow> False | Some c \<Rightarrow> isWord c)"

definition nextOf :: "string \<Rightarrow> char option" where
  "nextOf s = (case s of [] \<Rightarrow> None | c # _ \<Rightarrow> Some c)"

function ms :: "regex \<Rightarrow> pos \<Rightarrow> pos list" where
  "ms Eps q = [q]"
| "ms (Chr c) (p, s, g) = (case s of [] \<Rightarrow> [] | x # xs \<Rightarrow> if x = c then [(Some x, xs, g)] else [])"
| "ms (Cls P) (p, s, g) = (case s of [] \<Rightarrow> [] | x # xs \<Rightarrow> if P x then [(Some x, xs, g)] else [])"
| "ms (Seq a b) q = concat (map (ms b) (ms a q))"
| "ms (Alt a b) q = ms a q @ ms b q"
| "ms (Star a) q = concat (map (\<lambda>q'. if shorter q' q then ms (Star a) q' else []) (ms a q)) @ [q]"
| "ms (Lazy a) q = q # concat (map (\<lambda>q'. if shorter q' q then ms (Lazy a) q' else []) (ms a q))"
| "ms (Grp a) (p, s, g) = map (setCap s) (ms a (p, s, g))"
| "ms WordB (p, s, g) = (if wordAt p \<noteq> wordAt (nextOf s) then [(p, s, g)] else [])"
| "ms Eol (p, s, g) = (case s of [] \<Rightarrow> [(p, s, g)] | x # _ \<Rightarrow> if isLineTerm x then [(p, s, g)] else [])"
| "ms (Behind P) (p, s, g) = (case p of None \<Rightarrow> [] | Some c \<Rightarrow> if P c then [(p, s, g)] else [])"
  by pat_completeness auto
termination
  by (relation "inv_image (less_than <*lex*> less_than) (\<lambda>(r, q). (size r, length (fst (snd q))))")
     (auto simp: shorter_def)

text \<open>Derived forms: \<open>a+\<close>, \<open>a?\<close>, a literal string, an alternation of literals.\<close>

definition Plus :: "regex \<Rightarrow> regex" where
  "Plus a = Seq a (Star a)"

definition Opt :: "regex \<Rightarrow> regex" where
  "Opt a = Alt a Eps"

fun Lit :: "string \<Rightarrow> regex" where
  "Lit [] = Eps"
| "Lit (c # cs) = Seq (Chr c) (Lit cs)"

fun Alts :: "regex list \<Rightarrow> regex" where
  "Alts [] = Cls (\<lambda>_. False)"
| "Alts [a] = a"
| "Alts (a # as) = Alt a (Alts as)"

text \<open>
  \<open>matchAt\<close> is one attempt of the engine at one position: the first way to match, as the
  matched text, the text of group 1, and the text after the match.
\<close>

definition matchAt :: "regex \<Rightarrow> char option \<Rightarrow> string \<Rightarrow> (string \<times> string option \<times> string) option" where
  "matchAt r p s = (case ms r (p, s, None) of
      [] \<Rightarrow> None
    | (p', s', g) # _ \<Rightarrow> Some (take (length s - length s') s, g, s'))"

text \<open>\<open>exec\<close> on a fresh pattern: the leftmost position at which the pattern matches.\<close>

fun exec :: "regex \<Rightarrow> char option \<Rightarrow> string \<Rightarrow> (string \<times> string option) option" where
  "exec r p [] = (case matchAt r p [] of None \<Rightarrow> None | Some (m, g, _) \<Rightarrow> Some (m, g))"
| "exec r p (c # cs) = (case matchAt r p (c # cs) of
      None \<Rightarrow> exec r (Some c) cs
    | Some (m, g, _) \<Rightarrow> Some (m, g))"

text \<open>
  A global scan (\<open>String.prototype.replace\<close> and \<open>split\<close> with a pattern): the text is
  cut, from left to right, into the matches of the pattern and the code units between
  them.  After an empty match the engine steps over one code unit.
\<close>

datatype piece = Raw char | Hit string "string option"

function scan :: "regex \<Rightarrow> char option \<Rightarrow> string \<Rightarrow> piece list" where
  "scan r p s = (case matchAt r p s of
      Some (m, g, s') \<Rightarrow>
        if length s' < length s then Hit m g # scan r (lastOf p m) s'
        else Hit m g # (case s of [] \<Rightarrow> [] | c # cs \<Rightarrow> Raw c # scan r (Some c) cs)
    | None \<Rightarrow> (case s of [] \<Rightarrow> [] | c # cs \<Rightarrow> Raw c # scan r (Some c) cs))"
  by pat_completeness auto
termination
  by (relation "measure (\<lambda>(r, p, s). length s)") auto

text \<open>\<open>text.replace(pattern, f)\<close> for a callback without side effects.\<close>

fun render :: "(string \<Rightarrow> string option \<Rightarrow> string) \<Rightarrow> piece list \<Rightarrow> string" where
  "render f [] = []"
| "render f (Raw c # ps) = c # render f ps"
| "render f (Hit m g # ps) = f m g @ render f ps"

definition replaceAll :: "regex \<Rightarrow> (string \<Rightarrow> string option \<Rightarrow> string) \<Rightarrow> string \<Rightarrow> string" where
  "replaceAll r f s = render f (scan r None s)"

text \<open>\<open>text.split(pattern)\<close>: the texts between the matches; always at least one.\<close>

fun pieces_split :: "string \<Rightarrow> piece list \<Rightarrow> string list" where
  "pieces_split acc [] = [rev acc]"
| "pieces_split acc (Raw c # ps) = pieces_split (c # acc) ps"
| "pieces_split acc (Hit m g # ps) = rev acc # pieces_split [] ps"

definition splitRe :: "regex \<Rightarrow> string \<Rightarrow> string list" where
  "splitRe r s = pieces_split [] (scan r None s)"

text \<open>The line separator \<open>/\r?\n/\<close> of both source files.\<close>

definition newlineRe :: regex where
  "newlineRe = Seq (Opt (Chr (CHR 0x0D))) (Chr (CHR 0x0A))"

definition splitLines :: "string \<Rightarrow> string list" where
  "splitLines s = splitRe newlineRe s"

section \<open>The diagnostic extractor (compile.js)\<close>

text \<open>
  A JavaScript number, as far as the source can produce one here: a non-negative integer
  that a double represents, \<open>Infinity\<close>, or \<open>NaN\<close>.  \<open>toNumber\<close> is the double nearest to
  a natural number (ties to the even significand): the number itself when it has at most
  53 binary digits, that is below \<open>2^53\<close>, a multiple of a power of two from there on, and
  \<open>Infinity\<close> from \<open>2^1024 - 2^970\<close> on.
\<close>

datatype jsnum = Num nat | Infinity | NaN

function bitLength :: "nat \<Rightarrow> nat" where
  "bitLength n = (if n = 0 then 0 else Suc (bitLength (n div 2)))"
  by pat_completeness auto
termination
  by (relation "measure id") auto

definition toNumber :: "nat \<Rightarrow> jsnum" where
  "toNumber n = (if bitLength n \<le> 53 then Num n else
     (let e = bitLength n - 53; q = n div 2 ^ e; r = n mod 2 ^ e; h = 2 ^ (e - 1);
          q' = (if h < r \<or> (r = h \<and> odd q) then q + 1 else q); v = q' * 2 ^ e
      in if 2 ^ 1024 \<le> v then Infinity else Num v))"

text \<open>
  \<open>parseInt(x, 10)\<close> on the text of a group: \<open>NaN\<close> for a group that took no part in the
  match, otherwise the number nearest to the value of the leading decimal digits.  Every
  argument in the source is text matched by \<open>\d+\<close>, so the skipping of leading white space
  and of a sign is left out.  (Beyond 20 digits the language lets an engine approximate
  the digits; the model rounds the exact value, as the common engines do.)
\<close>

definition digitVal :: "char \<Rightarrow> nat" where
  "digitVal c = of_char c - 48"

definition decimal :: "string \<Rightarrow> nat" where
  "decimal ds = foldl (\<lambda>n c. 10 * n + digitVal c) 0 ds"

definition parseInt :: "string option \<Rightarrow> jsnum" where
  "parseInt x = (case x of
      None \<Rightarrow> NaN
    | Some s \<Rightarrow> (let ds = takeWhile isDigit s in if ds = [] then NaN else toNumber (decimal ds)))"

text \<open>\<open>/(?:line\s+(\d+))/gm\<close>, \<open>/line (\d+)/gm\<close> and the exception signature
  \<open>/vyper\.exceptions\.\w+Exception:\s+(?:line\s+(\d+)).*$/gm\<close>.\<close>

definition lineRe :: regex where
  "lineRe = Seq (Lit ''line'') (Seq (Plus (Cls isSpace)) (Grp (Plus (Cls isDigit))))"

definition lineSpRe :: regex where
  "lineSpRe = Seq (Lit ''line '') (Grp (Plus (Cls isDigit)))"

definition vyperRe :: regex where
  "vyperRe = Seq (Lit ''vyper.exceptions.'') (Seq (Plus (Cls isWord)) (Seq (Lit ''Exception:'')
     (Seq (Plus (Cls isSpace)) (Seq (Seq (Lit ''line'') (Seq (Plus (Cls isSpace)) (Grp (Plus (Cls isDigit)))))
     (Seq (Star (Cls isDot)) Eol)))))"

definition extractLineNumber :: "string \<Rightarrow> jsnum" where
  "extractLineNumber errormsg = (case exec lineRe None errormsg of
      None \<Rightarrow> Num 1
    | Some (m, g) \<Rightarrow> parseInt g)"

record diagnostic =
  shortmsg :: string
  lineNr :: jsnum

definition syntaxErrorLine :: string where
  "syntaxErrorLine = ''SyntaxError: invalid syntax''"

definition parseErrorMessage :: "string \<Rightarrow> diagnostic" where
  "parseErrorMessage errormsg =
    (let lines = splitLines errormsg;
         shortmsg0 = (case lines of [] \<Rightarrow> [] | l # _ \<Rightarrow> l);
         lineNr0 = extractLineNumber errormsg
     in if syntaxErrorLine \<in> set lines then
          \<lparr> shortmsg = syntaxErrorLine,
            lineNr = (case exec lineSpRe None errormsg of None \<Rightarrow> lineNr0 | Some (m, g) \<Rightarrow> parseInt g) \<rparr>
        else (case exec vyperRe None errormsg of
            None \<Rightarrow> \<lparr> shortmsg = shortmsg0, lineNr = lineNr0 \<rparr>
          | Some (m, g) \<Rightarrow> \<lparr> shortmsg = m, lineNr = parseInt g \<rparr>))"


subsection \<open>The first line of a text\<close>

text \<open>
  The text before the first line break, where a line break is LF or CR LF: the
  reference against which \<open>lines[0]\<close> of the extractor is compared.
\<close>

definition firstLine :: "string \<Rightarrow> string" where
  "firstLine e = (let l = takeWhile (\<lambda>c. c \<noteq> CHR 0x0A) e in
     if length l < length e \<and> l \<noteq> [] \<and> last l = CHR 0x0D then butlast l else l)"

subsection \<open>The tokens the extractor looks for, read directly off the text\<close>

text \<open>
  What the three patterns of the extractor find at the start of a text \<open>t\<close>, written
  without a pattern: \<open>line\<close>, white space and digits; \<open>line\<close>, one space and digits; and
  the exception signature \<open>vyper.exceptions.<Name>Exception:\<close>, white space, a \<open>line N\<close>
  token and the rest of the line.  Each gives the text found and the digits \<open>N\<close>.
  \<open>firstAt\<close> is the leftmost position of a text at which something is found.
\<close>

definition stripPrefix :: "string \<Rightarrow> string \<Rightarrow> string option" where
  "stripPrefix w s = (if prefix w s then Some (drop (length w) s) else None)"

definition lineTokenAt :: "string \<Rightarrow> (string \<times> string) option" where
  "lineTokenAt t = (case stripPrefix ''line'' t of
      None \<Rightarrow> None
    | Some t1 \<Rightarrow>
        (let ws = takeWhile isSpace t1; ds = takeWhile isDigit (dropWhile isSpace t1)
         in if ws = [] \<or> ds = [] then None else Some (''line'' @ ws @ ds, ds)))"

definition lineSpTokenAt :: "string \<Rightarrow> (string \<times> string) option" where
  "lineSpTokenAt t = (case stripPrefix ''line '' t of
      None \<Rightarrow> None
    | Some t1 \<Rightarrow>
        (let ds = takeWhile isDigit t1
         in if ds = [] then None else Some (''line '' @ ds, ds)))"

definition signatureAt :: "string \<Rightarrow> (string \<times> string) option" where
  "signatureAt t = (case stripPrefix ''vyper.exceptions.'' t of
      None \<Rightarrow> None
    | Some t1 \<Rightarrow>
        (let W = takeWhile isWord t1; t2 = dropWhile isWord t1
         in if \<not> (length ''Exception'' < length W \<and> suffix ''Exception'' W) then None
            else (case stripPrefix '':'' t2 of
                None \<Rightarrow> None
              | Some t3 \<Rightarrow>
                  (let ws = takeWhile isSpace t3; t4 = dropWhile isSpace t3
                   in if ws = [] then None
                      else (case lineTokenAt t4 of
                          None \<Rightarrow> None
                        | Some (lt, ds) \<Rightarrow>
                            Some (''vyper.exceptions.'' @ W @ '':'' @ ws @ lt
                                    @ takeWhile isDot (drop (length lt) t4), ds))))))"

fun firstAt :: "(string \<Rightarrow> 'a option) \<Rightarrow> string \<Rightarrow> 'a option" where
  "firstAt f [] = f []"
| "firstAt f (c # cs) = (case f (c # cs) of Some x \<Rightarrow> Some x | None \<Rightarrow> firstAt f cs)"

text \<open>The line number of a token: its digits as a number.\<close>

definition tokenNumber :: "(string \<times> string) option \<Rightarrow> jsnum option" where
  "tokenNumber x = map_option (\<lambda>(m, ds). toNumber (decimal ds)) x"

section \<open>The built-in formatter (features/formatter.js)\<close>

abbreviation dq :: char where "dq \<equiv> CHR 0x22"
abbreviation sq :: char where "sq \<equiv> CHR 0x27"
abbreviation nl :: char where "nl \<equiv> CHR 0x0A"
abbreviation tab :: char where "tab \<equiv> CHR 0x09"

subsection \<open>Placeholders\<close>

text \<open>The decimal text of an array index, as a template literal prints it.\<close>

definition digitChar :: "nat \<Rightarrow> char" where
  "digitChar d = char_of (48 + d)"

function showNat :: "nat \<Rightarrow> string" where
  "showNat n = (if n < 10 then [digitChar n] else showNat (n div 10) @ [digitChar (n mod 10)])"
  by pat_completeness auto
termination
  by (relation "measure id") auto

definition token :: "nat \<Rightarrow> string" where
  "token i = ''__PLACEHOLDER_'' @ showNat i @ ''__''"

text \<open>
  \<open>text.replace(pattern, mask)\<close>: \<open>mask\<close> appends the match to \<open>placeholders\<close> and returns
  the token of its index.  The table is threaded through the matches from left to right.
\<close>

fun maskPieces :: "string list \<Rightarrow> piece list \<Rightarrow> string \<times> string list" where
  "maskPieces phs [] = ([], phs)"
| "maskPieces phs (Raw c # ps) = (case maskPieces phs ps of (t, phs') \<Rightarrow> (c # t, phs'))"
| "maskPieces phs (Hit m g # ps) =
     (case maskPieces (phs @ [m]) ps of (t, phs') \<Rightarrow> (token (length phs) @ t, phs'))"


subsection \<open>The patterns\<close>







text \<open>The operator lists, in the order of the source, and the patterns built from them.\<close>

definition alwaysBinaryOps :: "string list" where
  "alwaysBinaryOps = [''//'', ''->'', ''=='', ''!='', ''<='', ''>='',
                      ''+='', ''-='', ''*='', ''/='', ''%='',
                      ''='', ''/'', ''%'', ''<'', ''>'']"

definition ambiguousOps :: "string list" where
  "ambiguousOps = [''**'', ''+'', ''-'', ''*'']"

definition spaces :: regex where
  "spaces = Star (Cls isSpace)"

definition safeRegex :: regex where
  "safeRegex = Seq spaces (Seq (Grp (Alts (map Lit alwaysBinaryOps))) spaces)"

definition operandEnd :: "char \<Rightarrow> bool" where
  "operandEnd c = (isWord c \<or> c = CHR '')'' \<or> c = CHR '']'')"

definition ambiguousRegex :: regex where
  "ambiguousRegex = Seq (Behind operandEnd) (Seq spaces (Seq (Grp (Alts (map Lit ambiguousOps))) spaces))"


definition tabRegex :: regex where
  "tabRegex = Chr tab"



subsection \<open>Line processing\<close>

definition trimEnd :: "string \<Rightarrow> string" where
  "trimEnd s = rev (dropWhile isSpace (rev s))"


text \<open>The \<open>for\<close> loop over the lines, with its counter of consecutive blank lines;
  the result is the list of the lines pushed, in order.\<close>

fun blankLoop :: "(string \<Rightarrow> bool) \<Rightarrow> nat \<Rightarrow> string list \<Rightarrow> string list" where
  "blankLoop isBlank blankCount [] = []"
| "blankLoop isBlank blankCount (line # lines) =
     (if isBlank line then
        (if blankCount + 1 \<le> 2 then [] # blankLoop isBlank (blankCount + 1) lines
         else blankLoop isBlank (blankCount + 1) lines)
      else line # blankLoop isBlank 0 lines)"

text \<open>The \<open>while\<close> loop that pops empty lines off the end of \<open>result\<close>.\<close>

definition popBlank :: "string list \<Rightarrow> string list" where
  "popBlank result = rev (dropWhile (\<lambda>l. l = []) (rev result))"

fun joinLines :: "string list \<Rightarrow> string" where
  "joinLines [] = []"
| "joinLines [l] = l"
| "joinLines (l # ls) = l @ nl # joinLines ls"


subsection \<open>formatBuiltin\<close>




section \<open>The whitespace-only formatter (the other formatter.js)\<close>

definition formatWhitespace :: "string \<Rightarrow> string" where
  "formatWhitespace text =
     (let lines = map (\<lambda>line. trimEnd (replaceAll tabRegex (\<lambda>m g. ''    '') line)) (splitLines text)
      in joinLines (popBlank (blankLoop (\<lambda>line. line = []) 0 lines)) @ [nl])"

text \<open>The first way to match, as a position.\<close>

definition first :: "regex \<Rightarrow> pos \<Rightarrow> pos option" where
  "first r q = (case ms r q of [] \<Rightarrow> None | x # _ \<Rightarrow> Some x)"

text \<open>The match of a padded operator pattern at a position, in closed form.\<close>

definition findOp :: "string list \<Rightarrow> string \<Rightarrow> string option" where
  "findOp ops r = find (\<lambda>op. prefix op r) ops"

definition paddedMatch :: "string list \<Rightarrow> string \<Rightarrow> (string \<times> string option \<times> string) option" where
  "paddedMatch ops s = (let r = dropWhile isSpace s in
     case findOp ops r of
       None \<Rightarrow> None
     | Some op \<Rightarrow> let r' = drop (length op) r in
         Some (takeWhile isSpace s @ op @ takeWhile isSpace r', Some op, dropWhile isSpace r'))"

section \<open>Classes of input used in the statements\<close>

text \<open>Letters, spaces, tabs and line feeds.\<close>

definition plain :: "char \<Rightarrow> bool" where
  "plain c = (isLetter c \<or> c = CHR '' '' \<or> c = tab \<or> c = nl)"

text \<open>A word is a non-empty run of letters; a gap is a run of white space, possibly empty.\<close>

definition word :: "string \<Rightarrow> bool" where
  "word w = (w \<noteq> [] \<and> (\<forall>c\<in>set w. isLetter c))"

definition gap :: "string \<Rightarrow> bool" where
  "gap a = (\<forall>c\<in>set a. isSpace c)"




definition detab :: "string \<Rightarrow> string" where
  "detab s = concat (map (\<lambda>c. if c = tab then ''    '' else [c]) s)"

section \<open>Facts about the matcher\<close>

lemmas ms_Star = ms.simps(6)
lemmas ms_Lazy = ms.simps(7)
declare ms.simps(6,7) [simp del]
declare scan.simps [simp del]
declare showNat.simps [simp del]
declare bitLength.simps [simp del]

lemma lastOf_append: "lastOf (lastOf p m1) m2 = lastOf p (m1 @ m2)"
  by (simp add: lastOf_def)

lemma lastOf_Nil [simp]: "lastOf p [] = p"
  by (simp add: lastOf_def)

lemma lastOf_Cons [simp]: "lastOf p (c # m) = lastOf (Some c) m"
  by (simp add: lastOf_def)

lemma ms_consumes:
  "q' \<in> set (ms r q) \<Longrightarrow> \<exists>m. fst (snd q) = m @ fst (snd q') \<and> fst q' = lastOf (fst q) m"
proof (induction r q arbitrary: q' rule: ms.induct)
  case (4 a b q)
  from "4.prems" obtain q1 where q1: "q1 \<in> set (ms a q)" and q': "q' \<in> set (ms b q1)"
    by auto
  from "4.IH"(1)[OF q1] obtain m1 where m1: "fst (snd q) = m1 @ fst (snd q1)" "fst q1 = lastOf (fst q) m1"
    by blast
  from "4.IH"(2)[OF q1 q'] obtain m2 where m2: "fst (snd q1) = m2 @ fst (snd q')" "fst q' = lastOf (fst q1) m2"
    by blast
  show ?case
    by (rule exI[of _ "m1 @ m2"]) (simp add: m1 m2 lastOf_append)
next
  case (6 a q)
  show ?case
  proof (cases "q' = q")
    case True
    then show ?thesis by (intro exI[of _ "[]"]) simp
  next
    case False
    with "6.prems" obtain q1 where q1: "q1 \<in> set (ms a q)" and sh: "shorter q1 q"
      and q': "q' \<in> set (ms (Star a) q1)"
      by (subst (asm) ms_Star) (auto split: if_splits)
    from "6.IH"(1)[OF q1] obtain m1 where m1: "fst (snd q) = m1 @ fst (snd q1)" "fst q1 = lastOf (fst q) m1"
      by blast
    from "6.IH"(2)[OF q1 sh q'] obtain m2 where m2: "fst (snd q1) = m2 @ fst (snd q')" "fst q' = lastOf (fst q1) m2"
      by blast
    show ?thesis
      by (rule exI[of _ "m1 @ m2"]) (simp add: m1 m2 lastOf_append)
  qed
next
  case (7 a q)
  show ?case
  proof (cases "q' = q")
    case True
    then show ?thesis by (intro exI[of _ "[]"]) simp
  next
    case False
    with "7.prems" obtain q1 where q1: "q1 \<in> set (ms a q)" and sh: "shorter q1 q"
      and q': "q' \<in> set (ms (Lazy a) q1)"
      by (subst (asm) ms_Lazy) (auto split: if_splits)
    from "7.IH"(1)[OF q1] obtain m1 where m1: "fst (snd q) = m1 @ fst (snd q1)" "fst q1 = lastOf (fst q) m1"
      by blast
    from "7.IH"(2)[OF q1 sh q'] obtain m2 where m2: "fst (snd q1) = m2 @ fst (snd q')" "fst q' = lastOf (fst q1) m2"
      by blast
    show ?thesis
      by (rule exI[of _ "m1 @ m2"]) (simp add: m1 m2 lastOf_append)
  qed
next
  case (1 q)
  then show ?case by (intro exI[of _ "[]"]) simp
next
  case (2 c p s g)
  then show ?case by (cases s) (auto split: if_splits intro: exI[of _ "[c]"])
next
  case (3 P p s g)
  then show ?case by (cases s) (auto split: if_splits)
next
  case (5 a b q)
  from "5.prems" have "q' \<in> set (ms a q) \<or> q' \<in> set (ms b q)" by simp
  then show ?case using "5.IH" by blast
next
  case (8 a p s g)
  then show ?case by (auto simp: setCap_def split: prod.splits)
next
  case (9 p s g)
  then show ?case by (auto split: if_splits)
next
  case (10 p s g)
  then show ?case by (cases s) (auto split: if_splits)
next
  case (11 P p s g)
  then show ?case by (cases p) (auto split: if_splits)
qed

lemma E_Seq:
  "q' \<in> set (ms (Seq a b) q) \<Longrightarrow> \<exists>q1. q1 \<in> set (ms a q) \<and> q' \<in> set (ms b q1)"
  by auto

lemma E_Lit:
  "(p', s', g') \<in> set (ms (Lit w) (p, s, g)) \<Longrightarrow> s = w @ s' \<and> g' = g \<and> p' = lastOf p w"
proof (induction w arbitrary: p s)
  case Nil
  then show ?case by simp
next
  case (Cons c w)
  from Cons.prems obtain q1 where q1: "q1 \<in> set (ms (Chr c) (p, s, g))"
    and q': "(p', s', g') \<in> set (ms (Lit w) q1)"
    by auto
  from q1 obtain xs where s: "s = c # xs" and q1eq: "q1 = (Some c, xs, g)"
    by (cases s) (auto split: if_splits)
  from Cons.IH[of "Some c" xs] q' q1eq have "xs = w @ s' \<and> g' = g \<and> p' = lastOf (Some c) w"
    by simp
  with s show ?case by simp
qed

lemma E_Star:
  "(p', s', g') \<in> set (ms (Star (Cls P)) (p, s, g)) \<Longrightarrow>
     \<exists>m. s = m @ s' \<and> (\<forall>c\<in>set m. P c) \<and> g' = g \<and> p' = lastOf p m"
proof (induction s arbitrary: p)
  case Nil
  then show ?case by (subst (asm) ms_Star) simp
next
  case (Cons x xs)
  show ?case
  proof (cases "(p', s', g') = (p, x # xs, g)")
    case True
    then show ?thesis by (intro exI[of _ "[]"]) simp
  next
    case False
    with Cons.prems have px: "P x" and mem: "(p', s', g') \<in> set (ms (Star (Cls P)) (Some x, xs, g))"
      by (subst (asm) ms_Star, auto simp: shorter_def split: if_splits)+
    from Cons.IH[OF mem] obtain m where "xs = m @ s'" "\<forall>c\<in>set m. P c" "g' = g" "p' = lastOf (Some x) m"
      by blast
    with px show ?thesis by (intro exI[of _ "x # m"]) simp
  qed
qed

lemma E_Plus:
  assumes "(p', s', g') \<in> set (ms (Plus (Cls P)) (p, s, g))"
  shows "\<exists>m. m \<noteq> [] \<and> s = m @ s' \<and> (\<forall>c\<in>set m. P c) \<and> g' = g \<and> p' = lastOf p m"
proof -
  from assms obtain q1 where q1: "q1 \<in> set (ms (Cls P) (p, s, g))"
    and q': "(p', s', g') \<in> set (ms (Star (Cls P)) q1)"
    unfolding Plus_def by auto
  from q1 obtain x xs where s: "s = x # xs" and px: "P x" and q1eq: "q1 = (Some x, xs, g)"
    by (cases s) (auto split: if_splits)
  from E_Star[of p' s' g' P "Some x" xs g] q' q1eq
  obtain m where "xs = m @ s'" "\<forall>c\<in>set m. P c" "g' = g" "p' = lastOf (Some x) m"
    by blast
  with s px show ?thesis by (intro exI[of _ "x # m"]) simp
qed

lemma E_Grp:
  "(p', s', g') \<in> set (ms (Grp a) (p, s, g)) \<Longrightarrow>
     \<exists>g0. (p', s', g0) \<in> set (ms a (p, s, g)) \<and> g' = Some (take (length s - length s') s)"
  by (auto simp: setCap_def)

lemma E_GrpPlus:
  assumes "(p', s', g') \<in> set (ms (Grp (Plus (Cls P))) (p, s, g))"
  shows "\<exists>m. m \<noteq> [] \<and> s = m @ s' \<and> (\<forall>c\<in>set m. P c) \<and> g' = Some m \<and> p' = lastOf p m"
proof -
  from E_Grp[OF assms] obtain g0 where "(p', s', g0) \<in> set (ms (Plus (Cls P)) (p, s, g))"
    and g': "g' = Some (take (length s - length s') s)" by blast
  from E_Plus[OF this(1)] obtain m where m: "m \<noteq> []" "s = m @ s'" "\<forall>c\<in>set m. P c" "p' = lastOf p m"
    by blast
  with g' show ?thesis by (intro exI[of _ m]) simp
qed

lemma E_Eol:
  "(p', s', g') \<in> set (ms Eol (p, s, g)) \<Longrightarrow>
     s' = s \<and> g' = g \<and> p' = p \<and> (s = [] \<or> (\<exists>x xs. s = x # xs \<and> isLineTerm x))"
  by (cases s) (auto split: if_splits)

lemma matchAt_Some:
  assumes "matchAt r p s = Some (m, g, t)"
  shows "\<exists>p'. (p', t, g) \<in> set (ms r (p, s, None)) \<and> s = m @ t"
proof -
  from assms obtain p' rest where hd: "ms r (p, s, None) = (p', t, g) # rest"
    and m: "m = take (length s - length t) s"
    by (auto simp: matchAt_def split: list.splits)
  then have mem: "(p', t, g) \<in> set (ms r (p, s, None))" by simp
  from ms_consumes[OF mem] obtain m' where "s = m' @ t" by auto
  with m mem show ?thesis by auto
qed

lemma exec_Some:
  "exec r p s = Some (m, g) \<Longrightarrow> \<exists>pre p' t. s = pre @ m @ t \<and> matchAt r p' (m @ t) = Some (m, g, t)"
proof (induction s arbitrary: p)
  case Nil
  then obtain t where mt: "matchAt r p [] = Some (m, g, t)"
    by (auto split: option.splits)
  from matchAt_Some[OF mt] have "[] = m @ t" by blast
  with mt show ?case by auto
next
  case (Cons c cs)
  show ?case
  proof (cases "matchAt r p (c # cs)")
    case None
    with Cons.prems have "exec r (Some c) cs = Some (m, g)" by simp
    from Cons.IH[OF this] obtain pre p' t where "cs = pre @ m @ t" "matchAt r p' (m @ t) = Some (m, g, t)"
      by blast
    then show ?thesis by (intro exI[of _ "c # pre"]) auto
  next
    case (Some a)
    with Cons.prems obtain t where mt: "matchAt r p (c # cs) = Some (m, g, t)"
      by (auto split: prod.splits)
    from matchAt_Some[OF mt] have "c # cs = m @ t" by blast
    with mt show ?thesis by (intro exI[of _ "[]"]) auto
  qed
qed

lemma E_Seq3:
  "(p', s', g') \<in> set (ms (Seq a b) (p, s, g)) \<Longrightarrow>
     \<exists>p1 s1 g1. (p1, s1, g1) \<in> set (ms a (p, s, g)) \<and> (p', s', g') \<in> set (ms b (p1, s1, g1))"
  by auto

lemma parseInt_digits:
  "ds \<noteq> [] \<Longrightarrow> \<forall>c\<in>set ds. isDigit c \<Longrightarrow> parseInt (Some ds) = toNumber (decimal ds)"
  by (simp add: parseInt_def Let_def takeWhile_eq_all_conv[THEN iffD2])

lemma lineRe_shape:
  assumes "(p', t, g) \<in> set (ms lineRe (p, s, g0))"
  shows "\<exists>ws ds. s = ''line'' @ ws @ ds @ t \<and> ws \<noteq> [] \<and> (\<forall>c\<in>set ws. isSpace c)
           \<and> ds \<noteq> [] \<and> (\<forall>c\<in>set ds. isDigit c) \<and> g = Some ds"
proof -
  from assms obtain p1 s1 g1 where a: "(p1, s1, g1) \<in> set (ms (Lit ''line'') (p, s, g0))"
    and b: "(p', t, g) \<in> set (ms (Seq (Plus (Cls isSpace)) (Grp (Plus (Cls isDigit)))) (p1, s1, g1))"
    unfolding lineRe_def by (blast dest: E_Seq3)
  from b obtain p2 s2 g2 where c: "(p2, s2, g2) \<in> set (ms (Plus (Cls isSpace)) (p1, s1, g1))"
    and d: "(p', t, g) \<in> set (ms (Grp (Plus (Cls isDigit))) (p2, s2, g2))"
    by (blast dest: E_Seq3)
  from E_Lit[OF a] have s: "s = ''line'' @ s1" by simp
  from E_Plus[OF c] obtain ws where ws: "ws \<noteq> []" "s1 = ws @ s2" "\<forall>c\<in>set ws. isSpace c" by blast
  from E_GrpPlus[OF d] obtain ds where ds: "ds \<noteq> []" "s2 = ds @ t" "\<forall>c\<in>set ds. isDigit c" "g = Some ds"
    by blast
  show ?thesis
    by (rule exI[of _ ws], rule exI[of _ ds]) (use s ws ds in simp)
qed

lemma lineSpRe_shape:
  assumes "(p', t, g) \<in> set (ms lineSpRe (p, s, g0))"
  shows "\<exists>ds. s = ''line '' @ ds @ t \<and> ds \<noteq> [] \<and> (\<forall>c\<in>set ds. isDigit c) \<and> g = Some ds"
proof -
  from assms obtain p1 s1 g1 where a: "(p1, s1, g1) \<in> set (ms (Lit ''line '') (p, s, g0))"
    and d: "(p', t, g) \<in> set (ms (Grp (Plus (Cls isDigit))) (p1, s1, g1))"
    unfolding lineSpRe_def by (blast dest: E_Seq3)
  from E_Lit[OF a] have s: "s = ''line '' @ s1" by simp
  from E_GrpPlus[OF d] obtain ds where ds: "ds \<noteq> []" "s1 = ds @ t" "\<forall>c\<in>set ds. isDigit c" "g = Some ds"
    by blast
  show ?thesis
    by (intro exI[of _ ds]) (use s ds in simp)
qed

lemma vyperRe_shape:
  assumes "(p', t, g) \<in> set (ms vyperRe (p, s, g0))"
  shows "\<exists>w ws ws' ds r. s = ''vyper.exceptions.'' @ w @ ''Exception:'' @ ws @ ''line'' @ ws' @ ds @ r @ t
           \<and> w \<noteq> [] \<and> (\<forall>c\<in>set w. isWord c)
           \<and> ws \<noteq> [] \<and> (\<forall>c\<in>set ws. isSpace c)
           \<and> ws' \<noteq> [] \<and> (\<forall>c\<in>set ws'. isSpace c)
           \<and> ds \<noteq> [] \<and> (\<forall>c\<in>set ds. isDigit c) \<and> g = Some ds
           \<and> (\<forall>c\<in>set r. \<not> isLineTerm c)
           \<and> (t = [] \<or> (\<exists>x xs. t = x # xs \<and> isLineTerm x))"
proof -
  from assms obtain p1 s1 g1 where a: "(p1, s1, g1) \<in> set (ms (Lit ''vyper.exceptions.'') (p, s, g0))"
    and b: "(p', t, g) \<in> set (ms (Seq (Plus (Cls isWord)) (Seq (Lit ''Exception:'')
     (Seq (Plus (Cls isSpace)) (Seq (Seq (Lit ''line'') (Seq (Plus (Cls isSpace)) (Grp (Plus (Cls isDigit)))))
     (Seq (Star (Cls isDot)) Eol))))) (p1, s1, g1))"
    unfolding vyperRe_def by (blast dest: E_Seq3)
  from b obtain p2 s2 g2 where c: "(p2, s2, g2) \<in> set (ms (Plus (Cls isWord)) (p1, s1, g1))"
    and d: "(p', t, g) \<in> set (ms (Seq (Lit ''Exception:'')
     (Seq (Plus (Cls isSpace)) (Seq (Seq (Lit ''line'') (Seq (Plus (Cls isSpace)) (Grp (Plus (Cls isDigit)))))
     (Seq (Star (Cls isDot)) Eol)))) (p2, s2, g2))"
    by (blast dest: E_Seq3)
  from d obtain p3 s3 g3 where e: "(p3, s3, g3) \<in> set (ms (Lit ''Exception:'') (p2, s2, g2))"
    and f: "(p', t, g) \<in> set (ms (Seq (Plus (Cls isSpace)) (Seq (Seq (Lit ''line'') (Seq (Plus (Cls isSpace)) (Grp (Plus (Cls isDigit)))))
     (Seq (Star (Cls isDot)) Eol))) (p3, s3, g3))"
    by (blast dest: E_Seq3)
  from f obtain p4 s4 g4 where h: "(p4, s4, g4) \<in> set (ms (Plus (Cls isSpace)) (p3, s3, g3))"
    and i: "(p', t, g) \<in> set (ms (Seq (Seq (Lit ''line'') (Seq (Plus (Cls isSpace)) (Grp (Plus (Cls isDigit)))))
     (Seq (Star (Cls isDot)) Eol)) (p4, s4, g4))"
    by (blast dest: E_Seq3)
  from i obtain p5 s5 g5 where j: "(p5, s5, g5) \<in> set (ms lineRe (p4, s4, g4))"
    and k: "(p', t, g) \<in> set (ms (Seq (Star (Cls isDot)) Eol) (p5, s5, g5))"
    unfolding lineRe_def by (blast dest: E_Seq3)
  from k obtain p6 s6 g6 where l: "(p6, s6, g6) \<in> set (ms (Star (Cls isDot)) (p5, s5, g5))"
    and m: "(p', t, g) \<in> set (ms Eol (p6, s6, g6))"
    by (blast dest: E_Seq3)
  from E_Lit[OF a] have 1: "s = ''vyper.exceptions.'' @ s1" by simp
  from E_Plus[OF c] obtain w where 2: "w \<noteq> []" "s1 = w @ s2" "\<forall>c\<in>set w. isWord c" by blast
  from E_Lit[OF e] have 3: "s2 = ''Exception:'' @ s3" by simp
  from E_Plus[OF h] obtain ws where 4: "ws \<noteq> []" "s3 = ws @ s4" "\<forall>c\<in>set ws. isSpace c" by blast
  from lineRe_shape[OF j] obtain ws' ds where 5: "s4 = ''line'' @ ws' @ ds @ s5" "ws' \<noteq> []"
    "\<forall>c\<in>set ws'. isSpace c" "ds \<noteq> []" "\<forall>c\<in>set ds. isDigit c" "g5 = Some ds" by blast
  from E_Star[OF l] obtain r where 6: "s5 = r @ s6" "\<forall>c\<in>set r. isDot c" "g6 = g5" by blast
  from E_Eol[OF m] have 7: "t = s6" "g = g6" "s6 = [] \<or> (\<exists>x xs. s6 = x # xs \<and> isLineTerm x)" by auto
  show ?thesis
    apply (rule exI[of _ w], rule exI[of _ ws], rule exI[of _ ws'], rule exI[of _ ds], rule exI[of _ r])
    using 1 2 3 4 5 6 7 by (simp add: isDot_def)
qed

lemma matchAt_newline:
  "matchAt newlineRe p s =
     (case s of [] \<Rightarrow> None
      | c # t \<Rightarrow> if c = nl then Some ([nl], None, t)
                 else (case t of [] \<Rightarrow> None
                       | d # u \<Rightarrow> if c = CHR 0x0D \<and> d = nl then Some ([CHR 0x0D, nl], None, u) else None))"
  by (auto simp: matchAt_def newlineRe_def Opt_def split: list.splits)

lemma split_first:
  "\<exists>ls. pieces_split acc (scan newlineRe p s) = (rev acc @ firstLine s) # ls"
proof (induction s arbitrary: acc p rule: length_induct)
  case (1 s)
  show ?case
  proof (cases s)
    case Nil
    then show ?thesis
      by (subst scan.simps) (simp add: matchAt_newline firstLine_def)
  next
    case (Cons c t)
    show ?thesis
    proof (cases "c = nl")
      case True
      with Cons show ?thesis
        by (subst scan.simps) (simp add: matchAt_newline firstLine_def)
    next
      case cnl: False
      show ?thesis
      proof (cases "c = CHR 0x0D \<and> (\<exists>u. t = nl # u)")
        case True
        with Cons cnl show ?thesis
          by (subst scan.simps) (auto simp add: matchAt_newline firstLine_def)
      next
        case False
        with Cons cnl have sc: "scan newlineRe p s = Raw c # scan newlineRe (Some c) t"
          by (subst scan.simps) (auto simp add: matchAt_newline split: list.splits)
        from 1 Cons obtain ls where ls: "pieces_split (c # acc) (scan newlineRe (Some c) t) = (rev (c # acc) @ firstLine t) # ls"
          by (metis length_Cons lessI)
        have fl: "firstLine s = c # firstLine t"
          using Cons cnl False
          by (cases t) (auto simp: firstLine_def Let_def butlast_append split: if_splits)
        show ?thesis using sc ls fl by simp
      qed
    qed
  qed
qed

lemma splitLines_first: "\<exists>ls. splitLines e = firstLine e # ls"
  using split_first[of "[]" None e] by (simp add: splitLines_def splitRe_def)

lemma exec_shape:
  assumes "exec r None e = Some (m, g)"
  shows "\<exists>pre post p p'. e = pre @ m @ post \<and> (p', post, g) \<in> set (ms r (p, m @ post, None))"
proof -
  from exec_Some[OF assms] obtain pre p t where e: "e = pre @ m @ t"
    and mt: "matchAt r p (m @ t) = Some (m, g, t)" by blast
  from matchAt_Some[OF mt] obtain p' where "(p', t, g) \<in> set (ms r (p, m @ t, None))" by blast
  with e show ?thesis by blast
qed

lemma lineSp_cases:
  "exec lineSpRe None e = Some (m, g) \<Longrightarrow>
     \<exists>ds. m = ''line '' @ ds \<and> ds \<noteq> [] \<and> (\<forall>c\<in>set ds. isDigit c) \<and> g = Some ds"
proof -
  assume "exec lineSpRe None e = Some (m, g)"
  from exec_shape[OF this] obtain post p p'
    where "(p', post, g) \<in> set (ms lineSpRe (p, m @ post, None))" by blast
  from lineSpRe_shape[OF this] obtain ds where sh: "m @ post = ''line '' @ ds @ post"
    "ds \<noteq> []" "\<forall>c\<in>set ds. isDigit c" "g = Some ds" by blast
  from sh(1) have "m = ''line '' @ ds" by simp
  with sh show ?thesis by blast
qed

lemma vyper_cases:
  assumes "exec vyperRe None e = Some (m, g)"
  shows "\<exists>pre post w ws ws' ds r. e = pre @ m @ post
           \<and> (post = [] \<or> (\<exists>x xs. post = x # xs \<and> isLineTerm x))
           \<and> m = ''vyper.exceptions.'' @ w @ ''Exception:'' @ ws @ ''line'' @ ws' @ ds @ r
           \<and> w \<noteq> [] \<and> (\<forall>c\<in>set w. isWord c)
           \<and> ws \<noteq> [] \<and> (\<forall>c\<in>set ws. isSpace c)
           \<and> ws' \<noteq> [] \<and> (\<forall>c\<in>set ws'. isSpace c)
           \<and> ds \<noteq> [] \<and> (\<forall>c\<in>set ds. isDigit c) \<and> g = Some ds
           \<and> (\<forall>c\<in>set r. \<not> isLineTerm c)"
proof -
  from exec_shape[OF assms] obtain pre post p p' where e: "e = pre @ m @ post"
    and mem: "(p', post, g) \<in> set (ms vyperRe (p, m @ post, None))" by blast
  from vyperRe_shape[OF mem] obtain w ws ws' ds r where
    sh: "m @ post = ''vyper.exceptions.'' @ w @ ''Exception:'' @ ws @ ''line'' @ ws' @ ds @ r @ post"
    and rest: "w \<noteq> []" "\<forall>c\<in>set w. isWord c" "ws \<noteq> []" "\<forall>c\<in>set ws. isSpace c"
      "ws' \<noteq> []" "\<forall>c\<in>set ws'. isSpace c" "ds \<noteq> []" "\<forall>c\<in>set ds. isDigit c" "g = Some ds"
      "\<forall>c\<in>set r. \<not> isLineTerm c" "post = [] \<or> (\<exists>x xs. post = x # xs \<and> isLineTerm x)"
    by blast
  have "m @ post = (''vyper.exceptions.'' @ w @ ''Exception:'' @ ws @ ''line'' @ ws' @ ds @ r) @ post"
    using sh by simp
  then have m: "m = ''vyper.exceptions.'' @ w @ ''Exception:'' @ ws @ ''line'' @ ws' @ ds @ r"
    by (simp only: append_same_eq)
  show ?thesis
    apply (rule exI[of _ pre], rule exI[of _ post], rule exI[of _ w], rule exI[of _ ws],
           rule exI[of _ ws'], rule exI[of _ ds], rule exI[of _ r])
    using e m rest by blast
qed

lemma parse_syntax:
  "syntaxErrorLine \<in> set (splitLines e) \<Longrightarrow>
     parseErrorMessage e = \<lparr> shortmsg = syntaxErrorLine,
        lineNr = (case exec lineSpRe None e of None \<Rightarrow> extractLineNumber e | Some (m, g) \<Rightarrow> parseInt g) \<rparr>"
  by (simp add: parseErrorMessage_def Let_def)

lemma parse_other:
  "syntaxErrorLine \<notin> set (splitLines e) \<Longrightarrow>
     parseErrorMessage e = (case exec vyperRe None e of
            None \<Rightarrow> \<lparr> shortmsg = firstLine e, lineNr = extractLineNumber e \<rparr>
          | Some (m, g) \<Rightarrow> \<lparr> shortmsg = m, lineNr = parseInt g \<rparr>)"
  using splitLines_first[of e] by (auto simp add: parseErrorMessage_def Let_def split: option.splits)




lemma maskPieces_Raw [simp]: "maskPieces phs (map Raw s) = (s, phs)"
  by (induction s) simp_all


lemma ms_Seq_Nil: "(\<And>q1. q1 \<in> set (ms a q) \<Longrightarrow> ms b q1 = []) \<Longrightarrow> ms (Seq a b) q = []"
  by simp

lemma ms_spaces_then:
  assumes "\<And>p' t. suffix t s \<Longrightarrow> ms b (p', t, g) = []"
  shows "ms (Seq spaces b) (p, s, g) = []"
proof (rule ms_Seq_Nil)
  fix q1 assume q1: "q1 \<in> set (ms spaces (p, s, g))"
  obtain p1 s1 g1 where q1eq: "q1 = (p1, s1, g1)" by (cases q1)
  from E_Star[of p1 s1 g1 isSpace p s g] q1 q1eq obtain m where "s = m @ s1" "g1 = g"
    unfolding spaces_def by blast
  then show "ms b q1 = []" using assms[of s1 p1] q1eq by (simp add: suffix_def)
qed



lemma safeOp_first:
  "s = [] \<or> hd s \<notin> set ''/-=!<>+*%'' \<Longrightarrow> ms (Seq (Grp (Alts (map Lit alwaysBinaryOps))) spaces) (p, s, g) = []"
  by (cases s) (auto simp: alwaysBinaryOps_def)

lemma ambOp_first:
  "s = [] \<or> hd s \<notin> set ''+-*'' \<Longrightarrow> ms (Seq (Grp (Alts (map Lit ambiguousOps))) spaces) (p, s, g) = []"
  by (cases s) (auto simp: ambiguousOps_def)



lemma ms_Lit:
  "ms (Lit w) (p, s, g) = (if prefix w s then [(lastOf p w, drop (length w) s, g)] else [])"
proof (induction w arbitrary: p s)
  case Nil
  then show ?case by simp
next
  case (Cons c w)
  show ?case
  proof (cases s)
    case Nil
    then show ?thesis by simp
  next
    case (Cons x xs)
    then show ?thesis using Cons.IH[of "Some c" xs] by auto
  qed
qed

lemma ms_Alts_Lit:
  "ms (Alts (map Lit ops)) (p, s, g) =
     map (\<lambda>op. (lastOf p op, drop (length op) s, g)) (filter (\<lambda>op. prefix op s) ops)"
proof (induction ops)
  case Nil
  then show ?case by (cases s) simp_all
next
  case (Cons a ops)
  then show ?case by (cases ops) (simp_all add: ms_Lit)
qed

lemma ms_spaces_Nil [simp]: "ms spaces (p, [], g) = [(p, [], g)]"
  unfolding spaces_def by (subst ms_Star) simp

lemma ms_spaces_Cons:
  "ms spaces (p, x # xs, g) =
     (if isSpace x then ms spaces (Some x, xs, g) @ [(p, x # xs, g)] else [(p, x # xs, g)])"
  unfolding spaces_def by (subst ms_Star) (simp add: shorter_def)

lemma ms_spaces_hd:
  "\<exists>rest. ms spaces (p, s, g) = (lastOf p (takeWhile isSpace s), dropWhile isSpace s, g) # rest"
proof (induction s arbitrary: p)
  case Nil
  then show ?case by simp
next
  case (Cons x xs)
  from Cons[of "Some x"] show ?case by (auto simp: ms_spaces_Cons)
qed

lemma skip_spaces:
  assumes "\<And>p' t. t \<noteq> [] \<Longrightarrow> isSpace (hd t) \<Longrightarrow> ms R (p', t, g) = []"
  shows "ms (Seq spaces R) (p, s, g) = ms R (lastOf p (takeWhile isSpace s), dropWhile isSpace s, g)"
proof (induction s arbitrary: p)
  case Nil
  then show ?case by simp
next
  case (Cons x xs)
  show ?case
  proof (cases "isSpace x")
    case True
    have "ms (Seq spaces R) (p, x # xs, g) = ms (Seq spaces R) (Some x, xs, g) @ ms R (p, x # xs, g)"
      using True by (simp add: ms_spaces_Cons)
    also have "ms R (p, x # xs, g) = []" using assms[of "x # xs" p] True by simp
    finally show ?thesis using Cons[of "Some x"] True by simp
  next
    case False
    then show ?thesis by (simp add: ms_spaces_Cons)
  qed
qed

lemma first_then_spaces:
  "first (Seq a spaces) q =
     map_option (\<lambda>(p1, s1, g1). (lastOf p1 (takeWhile isSpace s1), dropWhile isSpace s1, g1)) (first a q)"
proof (cases "ms a q")
  case Nil
  then show ?thesis by (simp add: first_def)
next
  case (Cons q1 rest)
  obtain p1 s1 g1 where q1: "q1 = (p1, s1, g1)" by (cases q1)
  from ms_spaces_hd[of p1 s1 g1] obtain r where "ms spaces (p1, s1, g1) = (lastOf p1 (takeWhile isSpace s1), dropWhile isSpace s1, g1) # r"
    by blast
  with Cons q1 show ?thesis by (simp add: first_def)
qed

lemma first_Grp_ops:
  "first (Grp (Alts (map Lit ops))) (p, s, g) =
     map_option (\<lambda>op. (lastOf p op, drop (length op) s, Some op)) (find (\<lambda>op. prefix op s) ops)"
proof -
  have *: "ms (Grp (Alts (map Lit ops))) (p, s, g) =
     map (\<lambda>op. (lastOf p op, drop (length op) s, Some op)) (filter (\<lambda>op. prefix op s) ops)"
    by (auto simp add: ms_Alts_Lit setCap_def prefix_def)
  show ?thesis
    unfolding first_def *
    by (induction ops) auto
qed

lemma matchAt_first:
  "matchAt r p s = map_option (\<lambda>(p', s', g). (take (length s - length s') s, g, s')) (first r (p, s, None))"
  by (auto simp: matchAt_def first_def split: list.splits)

lemma first_skip_spaces:
  assumes "\<And>p' t. t \<noteq> [] \<Longrightarrow> isSpace (hd t) \<Longrightarrow> ms R (p', t, g) = []"
  shows "first (Seq spaces R) (p, s, g) = first R (lastOf p (takeWhile isSpace s), dropWhile isSpace s, g)"
  using skip_spaces[of R g p s, OF assms] by (simp add: first_def)

lemma ops_not_space:
  assumes "\<And>op. op \<in> set ops \<Longrightarrow> op \<noteq> [] \<and> \<not> isSpace (hd op)"
  shows "t \<noteq> [] \<Longrightarrow> isSpace (hd t) \<Longrightarrow> ms (Seq (Grp (Alts (map Lit ops))) spaces) (p', t, g) = []"
proof -
  assume t: "t \<noteq> []" "isSpace (hd t)"
  have "filter (\<lambda>op. prefix op t) ops = []"
  proof (rule filter_False, rule ballI)
    fix op assume "op \<in> set ops"
    from assms[OF this] t show "\<not> prefix op t"
      by (cases op; cases t) auto
  qed
  then show ?thesis by (simp add: ms_Alts_Lit)
qed

lemma findOp_prefix: "findOp ops r = Some op \<Longrightarrow> prefix op r"
  unfolding findOp_def by (induction ops) (auto split: if_splits)

lemma padded_closed:
  assumes "\<And>op. op \<in> set ops \<Longrightarrow> op \<noteq> [] \<and> \<not> isSpace (hd op)"
  shows "matchAt (Seq spaces (Seq (Grp (Alts (map Lit ops))) spaces)) p s = paddedMatch ops s"
proof -
  let ?R = "Seq (Grp (Alts (map Lit ops))) spaces"
  let ?r = "dropWhile isSpace s"
  have 1: "first (Seq spaces ?R) (p, s, None) = first ?R (lastOf p (takeWhile isSpace s), ?r, None)"
    by (rule first_skip_spaces) (rule ops_not_space[OF assms])
  show ?thesis
  proof (cases "findOp ops ?r")
    case None
    then show ?thesis
      by (simp add: matchAt_first 1 first_then_spaces first_Grp_ops paddedMatch_def findOp_def)
  next
    case (Some op)
    from findOp_prefix[OF Some] obtain r' where r': "?r = op @ r'" by (auto simp: prefix_def)
    define A where "A = takeWhile isSpace s @ op @ takeWhile isSpace r'"
    define B where "B = dropWhile isSpace r'"
    have "s = takeWhile isSpace s @ dropWhile isSpace s" by simp
    also have "\<dots> = takeWhile isSpace s @ op @ (takeWhile isSpace r' @ dropWhile isSpace r')"
      unfolding r' by simp
    finally have s: "s = A @ B" by (simp add: A_def B_def)
    have "take (length s - length B) s = A" by (subst (1 2) s) simp
    then have tk: "take (length s - length (dropWhile isSpace r')) s = takeWhile isSpace s @ op @ takeWhile isSpace r'"
      by (simp add: A_def B_def)
    show ?thesis
      using Some r' tk
      by (simp add: matchAt_first 1 first_then_spaces first_Grp_ops paddedMatch_def findOp_def[symmetric])
  qed
qed

lemma matchAt_safe: "matchAt safeRegex p s = paddedMatch alwaysBinaryOps s"
  unfolding safeRegex_def
  by (rule padded_closed) (auto simp: alwaysBinaryOps_def isSpace_def)

lemma matchAt_ambiguous:
  "matchAt ambiguousRegex p s =
     (if (case p of None \<Rightarrow> False | Some c \<Rightarrow> operandEnd c) then paddedMatch ambiguousOps s else None)"
proof -
  have pc: "matchAt (Seq spaces (Seq (Grp (Alts (map Lit ambiguousOps))) spaces)) p s = paddedMatch ambiguousOps s"
    by (rule padded_closed) (auto simp: ambiguousOps_def isSpace_def)
  show ?thesis
    using pc unfolding ambiguousRegex_def matchAt_def
    by (cases p) auto
qed




subsection \<open>Stepping a scan\<close>

lemma scan_Nil: "matchAt r p [] = None \<Longrightarrow> scan r p [] = []"
  by (subst scan.simps) simp

lemma scan_Raw: "matchAt r p (c # t) = None \<Longrightarrow> scan r p (c # t) = Raw c # scan r (Some c) t"
  by (subst scan.simps) simp


lemma scan_inert:
  "(\<And>c p t. c \<in> set x \<Longrightarrow> matchAt r p (c # t) = None) \<Longrightarrow>
     scan r p (x @ rest) = map Raw x @ scan r (lastOf p x) rest"
proof (induction x arbitrary: p)
  case Nil
  then show ?case by simp
next
  case (Cons c x)
  have "scan r p (c # x @ rest) = Raw c # scan r (Some c) (x @ rest)"
    by (rule scan_Raw) (simp add: Cons.prems)
  also have "scan r (Some c) (x @ rest) = map Raw x @ scan r (lastOf (Some c) x) rest"
    by (rule Cons.IH) (simp add: Cons.prems)
  finally show ?case by simp
qed


subsection \<open>Texts on which a pattern finds nothing\<close>





lemma findOp_None: "(\<And>op. op \<in> set ops \<Longrightarrow> \<not> prefix op r) \<Longrightarrow> findOp ops r = None"
  unfolding findOp_def by (induction ops) auto





subsection \<open>Line processing of a single line\<close>





subsection \<open>Words and gaps\<close>

lemma letter_facts:
  assumes "isLetter c"
  shows "\<not> isSpace c" "\<not> isDigit c" "c \<notin> set ''/-=!<>+*%,_#()[]''" "c \<noteq> dq" "c \<noteq> sq" "c \<noteq> nl" "c \<noteq> tab"
    "isWord c" "operandEnd c"
  using assms by (auto simp: isLetter_def isSpace_def isDigit_def isWord_def operandEnd_def Let_def)

lemma space_facts:
  assumes "isSpace c"
  shows "\<not> isLetter c" "\<not> isDigit c" "c \<notin> set ''/-=!<>+*%,_#()[]''" "c \<noteq> dq" "c \<noteq> sq"
    "\<not> isWord c" "\<not> operandEnd c"
  using assms by (auto simp: isLetter_def isSpace_def isDigit_def isWord_def operandEnd_def Let_def)

lemma gap_split:
  assumes "gap a" "rest = [] \<or> \<not> isSpace (hd rest)"
  shows "takeWhile isSpace (a @ rest) = a" "dropWhile isSpace (a @ rest) = rest"
proof -
  have r: "takeWhile isSpace rest = []" "dropWhile isSpace rest = rest"
    using assms(2) by (cases rest; simp)+
  show "takeWhile isSpace (a @ rest) = a"
    using assms(1) r by (simp add: gap_def takeWhile_append2)
  show "dropWhile isSpace (a @ rest) = rest"
    using assms(1) r by (simp add: gap_def dropWhile_append2)
qed


lemma word_last: "word w \<Longrightarrow> isLetter (last w)"
  by (simp add: word_def)

lemma detab_append [simp]: "detab (x @ y) = detab x @ detab y"
  by (simp add: detab_def)




lemma detab_no_tab: "tab \<notin> set (detab s)"
  by (induction s) (auto simp: detab_def)


subsection \<open>The comma pass on a list of words\<close>




subsection \<open>Operators between words\<close>


lemma paddedMatch_gap_None:
  assumes "gap a" "rest = [] \<or> \<not> isSpace (hd rest)" "findOp ops rest = None"
  shows "paddedMatch ops (a @ rest) = None"
  by (simp add: paddedMatch_def gap_split[OF assms(1,2)] assms(3))

lemma scan_gap:
  assumes H: "\<And>p s. paddedMatch ops s = None \<Longrightarrow> matchAt r p s = None"
    and "gap a" "rest = [] \<or> \<not> isSpace (hd rest)" "findOp ops rest = None"
  shows "scan r p (a @ rest) = map Raw a @ scan r (lastOf p a) rest"
  using assms(2)
proof (induction a arbitrary: p)
  case Nil
  then show ?case by simp
next
  case (Cons c a)
  then have g: "gap a" by (simp add: gap_def)
  have "paddedMatch ops ((c # a) @ rest) = None"
    by (rule paddedMatch_gap_None[OF Cons.prems assms(3,4)])
  then have "matchAt r p (c # a @ rest) = None" using H by simp
  then have "scan r p (c # a @ rest) = Raw c # scan r (Some c) (a @ rest)" by (rule scan_Raw)
  with Cons.IH[OF g, of "Some c"] show ?case by simp
qed

lemma findOp_letter:
  assumes "\<And>op. op \<in> set ops \<Longrightarrow> op \<noteq> [] \<and> \<not> isLetter (hd op)" "isLetter c"
  shows "findOp ops (c # t) = None"
proof (rule findOp_None)
  fix op assume "op \<in> set ops"
  from assms(1)[OF this] assms(2) show "\<not> prefix op (c # t)" by (cases op) auto
qed

lemma paddedMatch_letter:
  assumes "\<And>op. op \<in> set ops \<Longrightarrow> op \<noteq> [] \<and> \<not> isLetter (hd op)" "isLetter c"
  shows "paddedMatch ops (c # t) = None"
  using findOp_letter[where t = t, OF assms] assms(2) by (simp add: paddedMatch_def letter_facts(1))


lemma amb_ops_heads: "op \<in> set ambiguousOps \<Longrightarrow> op \<noteq> [] \<and> \<not> isLetter (hd op) \<and> \<not> isSpace (hd op)"
  by (auto simp: ambiguousOps_def isLetter_def isSpace_def Let_def)

lemma scan_word:
  assumes H: "\<And>p s. paddedMatch ops s = None \<Longrightarrow> matchAt r p s = None"
    and ops: "\<And>op. op \<in> set ops \<Longrightarrow> op \<noteq> [] \<and> \<not> isLetter (hd op)"
    and "\<forall>c\<in>set x. isLetter c"
  shows "scan r p (x @ rest) = map Raw x @ scan r (lastOf p x) rest"
proof (rule scan_inert)
  fix c p t assume "c \<in> set x"
  with assms(3) have "isLetter c" by simp
  then have "paddedMatch ops (c # t) = None" using ops by (intro paddedMatch_letter) auto
  then show "matchAt r p (c # t) = None" by (rule H)
qed

lemma scan_end:
  assumes H: "\<And>p s. paddedMatch ops s = None \<Longrightarrow> matchAt r p s = None"
    and ops: "\<And>op. op \<in> set ops \<Longrightarrow> op \<noteq> []"
  shows "scan r p [] = []"
proof (rule scan_Nil, rule H)
  have "findOp ops [] = None" by (rule findOp_None) (use ops in auto)
  then show "paddedMatch ops [] = None" by (simp add: paddedMatch_def)
qed


lemma amb_ops_nonempty: "op \<in> set ambiguousOps \<Longrightarrow> op \<noteq> []"
  using amb_ops_heads by blast

lemma H_safe: "paddedMatch alwaysBinaryOps s = None \<Longrightarrow> matchAt safeRegex p s = None"
  by (simp add: matchAt_safe)

lemma H_amb: "paddedMatch ambiguousOps s = None \<Longrightarrow> matchAt ambiguousRegex p s = None"
  by (simp add: matchAt_ambiguous)


lemma scan_end_amb: "scan ambiguousRegex p [] = []"
  by (rule scan_end[where ops = ambiguousOps]) (simp_all add: H_amb amb_ops_nonempty)


lemma scan_word_amb:
  "\<forall>c\<in>set x. isLetter c \<Longrightarrow> scan ambiguousRegex p (x @ rest) = map Raw x @ scan ambiguousRegex (lastOf p x) rest"
  by (rule scan_word[where ops = ambiguousOps]) (simp_all add: H_amb amb_ops_heads)

lemma scan_gap_safe:
  "gap a \<Longrightarrow> rest = [] \<or> \<not> isSpace (hd rest) \<Longrightarrow> findOp alwaysBinaryOps rest = None \<Longrightarrow>
     scan safeRegex p (a @ rest) = map Raw a @ scan safeRegex (lastOf p a) rest"
  by (rule scan_gap[where ops = alwaysBinaryOps]) (simp_all add: H_safe)

lemma scan_gap_amb:
  "gap a \<Longrightarrow> rest = [] \<or> \<not> isSpace (hd rest) \<Longrightarrow> findOp ambiguousOps rest = None \<Longrightarrow>
     scan ambiguousRegex p (a @ rest) = map Raw a @ scan ambiguousRegex (lastOf p a) rest"
  by (rule scan_gap[where ops = ambiguousOps]) (simp_all add: H_amb)


lemma scan_word_end_amb: "\<forall>c\<in>set y. isLetter c \<Longrightarrow> scan ambiguousRegex p y = map Raw y"
  using scan_word_amb[of y p "[]"] by (simp add: scan_end_amb)

lemma not_prefix_single: "z = [] \<or> hd z \<noteq> c \<Longrightarrow> \<not> prefix [c] z"
  by (cases z) auto


lemma findOp_amb_self:
  assumes "op \<in> set ambiguousOps" "z = [] \<or> hd z \<noteq> CHR ''*''"
  shows "findOp ambiguousOps (op @ z) = Some op"
proof -
  have z: "\<not> prefix ''*'' z"
    using assms(2) by (auto intro!: not_prefix_single)
  have "\<forall>op\<in>set ambiguousOps. findOp ambiguousOps (op @ z) = Some op"
    using z by (simp add: ambiguousOps_def findOp_def)
  with assms(1) show ?thesis by blast
qed




subsection \<open>The patterns of the extractor in closed form\<close>

lemma concat_map_concat: "concat (map f (concat xss)) = concat (map (\<lambda>xs. concat (map f xs)) xss)"
  by (induction xss) simp_all

lemma ms_Seq_assoc: "ms (Seq (Seq a b) c) q = ms (Seq a (Seq b c)) q"
proof -
  have "ms (Seq b c) = (\<lambda>x. concat (map (ms c) (ms b x)))" by (rule ext) simp
  then show ?thesis by (simp add: concat_map_concat comp_def)
qed

lemma ms_Star_Cls_Nil: "ms (Star (Cls P)) (p, [], g) = [(p, [], g)]"
  by (subst ms_Star) simp

lemma ms_Star_Cls_Cons:
  "ms (Star (Cls P)) (p, x # xs, g) =
     (if P x then ms (Star (Cls P)) (Some x, xs, g) @ [(p, x # xs, g)] else [(p, x # xs, g)])"
  by (subst ms_Star) (simp add: shorter_def)

lemma ms_Star_Cls_hd:
  "\<exists>rest. ms (Star (Cls P)) (p, s, g) = (lastOf p (takeWhile P s), dropWhile P s, g) # rest"
proof (induction s arbitrary: p)
  case Nil
  then show ?case by (simp add: ms_Star_Cls_Nil)
next
  case (Cons x xs)
  from Cons[of "Some x"] show ?case by (auto simp: ms_Star_Cls_Cons)
qed

lemma skip_run:
  assumes "\<And>p' t. t \<noteq> [] \<Longrightarrow> P (hd t) \<Longrightarrow> ms R (p', t, g) = []"
  shows "ms (Seq (Star (Cls P)) R) (p, s, g) = ms R (lastOf p (takeWhile P s), dropWhile P s, g)"
proof (induction s arbitrary: p)
  case Nil
  then show ?case by (simp add: ms_Star_Cls_Nil)
next
  case (Cons x xs)
  show ?case
  proof (cases "P x")
    case True
    have "ms (Seq (Star (Cls P)) R) (p, x # xs, g) = ms (Seq (Star (Cls P)) R) (Some x, xs, g) @ ms R (p, x # xs, g)"
      using True by (simp add: ms_Star_Cls_Cons)
    also have "ms R (p, x # xs, g) = []" using assms[of "x # xs" p] True by simp
    finally show ?thesis using Cons[of "Some x"] True by simp
  next
    case False
    then show ?thesis by (simp add: ms_Star_Cls_Cons)
  qed
qed

lemma skip_run1:
  assumes "\<And>p' t. t \<noteq> [] \<Longrightarrow> P (hd t) \<Longrightarrow> ms R (p', t, g) = []"
  shows "ms (Seq (Plus (Cls P)) R) (p, s, g) =
           (if takeWhile P s = [] then [] else ms R (lastOf p (takeWhile P s), dropWhile P s, g))"
proof (cases s)
  case Nil
  then show ?thesis by (simp add: Plus_def)
next
  case (Cons x xs)
  have "ms (Seq (Plus (Cls P)) R) (p, s, g) = ms (Seq (Cls P) (Seq (Star (Cls P)) R)) (p, s, g)"
    unfolding Plus_def by (rule ms_Seq_assoc)
  also have "\<dots> = (if P x then ms (Seq (Star (Cls P)) R) (Some x, xs, g) else [])"
    using Cons by simp
  also have "\<dots> = (if P x then ms R (lastOf (Some x) (takeWhile P xs), dropWhile P xs, g) else [])"
    using skip_run[of P R g "Some x" xs, OF assms] by simp
  finally show ?thesis using Cons by simp
qed

lemma ms_Plus_Cls_hd:
  "takeWhile P s \<noteq> [] \<Longrightarrow>
     \<exists>rest. ms (Plus (Cls P)) (p, s, g) = (lastOf p (takeWhile P s), dropWhile P s, g) # rest"
proof (cases s)
  case Nil
  then show "takeWhile P s \<noteq> [] \<Longrightarrow> ?thesis" by simp
next
  case (Cons x xs)
  assume "takeWhile P s \<noteq> []"
  with Cons have px: "P x" by (auto split: if_splits)
  from ms_Star_Cls_hd[of P "Some x" xs g] obtain rest where
    "ms (Star (Cls P)) (Some x, xs, g) = (lastOf (Some x) (takeWhile P xs), dropWhile P xs, g) # rest" by blast
  with Cons px show ?thesis by (simp add: Plus_def)
qed

lemma ms_Plus_Cls_Nil: "takeWhile P s = [] \<Longrightarrow> ms (Plus (Cls P)) (p, s, g) = []"
  by (cases s) (auto simp: Plus_def split: if_splits)

lemma first_GrpPlus:
  "first (Grp (Plus (Cls P))) (p, s, g) =
     (if takeWhile P s = [] then None
      else Some (lastOf p (takeWhile P s), dropWhile P s, Some (takeWhile P s)))"
proof (cases "takeWhile P s = []")
  case True
  then show ?thesis by (simp add: first_def ms_Plus_Cls_Nil)
next
  case False
  from ms_Plus_Cls_hd[OF False, of p g] obtain rest where
    r: "ms (Plus (Cls P)) (p, s, g) = (lastOf p (takeWhile P s), dropWhile P s, g) # rest" by blast
  have "length s - length (dropWhile P s) = length (takeWhile P s)"
    by (metis add_diff_cancel_right' length_append takeWhile_dropWhile_id)
  then have "take (length s - length (dropWhile P s)) s = takeWhile P s"
    by (metis append_eq_conv_conj takeWhile_dropWhile_id)
  with False r show ?thesis by (simp add: first_def setCap_def)
qed

lemma first_Seq_Lit:
  "first (Seq (Lit w) R) (p, s, g) =
     (if prefix w s then first R (lastOf p w, drop (length w) s, g) else None)"
  by (simp add: first_def ms_Lit)

lemma first_Seq_hd:
  assumes "ms a q = q1 # rest" "ms b q1 \<noteq> []"
  shows "first (Seq a b) q = first b q1"
  using assms by (cases "ms b q1") (simp_all add: first_def)

lemma first_Seq_None: "ms a q = [] \<Longrightarrow> first (Seq a b) q = None"
  by (simp add: first_def)

lemma ms_Eol_at: "t = [] \<or> isLineTerm (hd t) \<Longrightarrow> ms Eol (p, t, g) = [(p, t, g)]"
  by (cases t) auto

lemma first_dots_eol:
  "first (Seq (Star (Cls isDot)) Eol) (p, s, g) = Some (lastOf p (takeWhile isDot s), dropWhile isDot s, g)"
proof -
  have "ms (Seq (Star (Cls isDot)) Eol) (p, s, g) = ms Eol (lastOf p (takeWhile isDot s), dropWhile isDot s, g)"
    by (rule skip_run) (auto simp: isDot_def split: list.splits)
  also have "\<dots> = [(lastOf p (takeWhile isDot s), dropWhile isDot s, g)]"
  proof (rule ms_Eol_at)
    show "dropWhile isDot s = [] \<or> isLineTerm (hd (dropWhile isDot s))"
      using hd_dropWhile[of isDot s] by (auto simp: isDot_def)
  qed
  finally show ?thesis by (simp add: first_def)
qed

lemma first_Seq_Plus:
  assumes "\<And>p' t. t \<noteq> [] \<Longrightarrow> P (hd t) \<Longrightarrow> ms R (p', t, g) = []"
  shows "first (Seq (Plus (Cls P)) R) (p, s, g) =
           (if takeWhile P s = [] then None else first R (lastOf p (takeWhile P s), dropWhile P s, g))"
  using skip_run1[of P R g p s, OF assms] by (simp add: first_def)

lemma first_Seq_total:
  assumes "\<And>q1. ms b q1 \<noteq> []"
  shows "first (Seq a b) q = (case first a q of None \<Rightarrow> None | Some q1 \<Rightarrow> first b q1)"
proof (cases "ms a q")
  case Nil
  then show ?thesis by (simp add: first_def)
next
  case (Cons q1 rest)
  from assms[of q1] obtain x xs where "ms b q1 = x # xs" by (cases "ms b q1") auto
  with Cons show ?thesis by (simp add: first_def)
qed

lemma matchAt_from_first:
  assumes "first r (p, s, None) = Some (p', s', g)" "s = m @ s'"
  shows "matchAt r p s = Some (m, g, s')"
  using assms by (simp add: matchAt_first)

lemma digits_not_space: "t \<noteq> [] \<Longrightarrow> isSpace (hd t) \<Longrightarrow> takeWhile isDigit t = []"
  by (cases t) (auto dest: space_facts(2))

lemma first_lineRe_None: "\<not> prefix ''line'' s \<Longrightarrow> first lineRe (p, s, g) = None"
  unfolding lineRe_def by (simp only: first_Seq_Lit if_False)

lemma first_lineRe:
  "first lineRe (p, ''line'' @ t1, g) =
     (let ws = takeWhile isSpace t1; t2 = dropWhile isSpace t1; ds = takeWhile isDigit t2
      in if ws = [] \<or> ds = [] then None
         else Some (lastOf (lastOf (Some CHR ''e'') ws) ds, dropWhile isDigit t2, Some ds))"
proof -
  have G: "\<And>p' t. t \<noteq> [] \<Longrightarrow> isSpace (hd t) \<Longrightarrow> ms (Grp (Plus (Cls isDigit))) (p', t, g) = []"
    by (simp add: ms_Plus_Cls_Nil digits_not_space)
  have 1: "first lineRe (p, ''line'' @ t1, g) =
             first (Seq (Plus (Cls isSpace)) (Grp (Plus (Cls isDigit)))) (Some CHR ''e'', t1, g)"
    unfolding lineRe_def by (subst first_Seq_Lit) simp
  have 2: "first (Seq (Plus (Cls isSpace)) (Grp (Plus (Cls isDigit)))) (Some CHR ''e'', t1, g) =
             (if takeWhile isSpace t1 = [] then None
              else first (Grp (Plus (Cls isDigit)))
                     (lastOf (Some CHR ''e'') (takeWhile isSpace t1), dropWhile isSpace t1, g))"
    by (rule first_Seq_Plus) (rule G)
  show ?thesis
    by (simp only: 1 2 first_GrpPlus Let_def) simp
qed

lemma lineTokenAt_None: "\<not> prefix ''line'' s \<Longrightarrow> lineTokenAt s = None"
  by (simp add: lineTokenAt_def stripPrefix_def)

lemma lineTokenAt_line:
  "lineTokenAt (''line'' @ t1) =
     (let ws = takeWhile isSpace t1; ds = takeWhile isDigit (dropWhile isSpace t1)
      in if ws = [] \<or> ds = [] then None else Some (''line'' @ ws @ ds, ds))"
  by (simp add: lineTokenAt_def stripPrefix_def)

lemma matchAt_lineRe:
  "matchAt lineRe p s = map_option (\<lambda>(m, ds). (m, Some ds, drop (length m) s)) (lineTokenAt s)"
proof (cases "prefix ''line'' s")
  case False
  then show ?thesis by (simp add: matchAt_first first_lineRe_None lineTokenAt_None)
next
  case True
  then obtain t1 where s: "s = ''line'' @ t1" by (auto simp: prefix_def)
  define ws where "ws = takeWhile isSpace t1"
  define t2 where "t2 = dropWhile isSpace t1"
  define ds where "ds = takeWhile isDigit t2"
  define t3 where "t3 = dropWhile isDigit t2"
  have t1: "t1 = ws @ ds @ t3" by (simp add: ws_def t2_def ds_def t3_def)
  show ?thesis
  proof (cases "ws = [] \<or> ds = []")
    case True
    then have "first lineRe (p, s, None) = None" "lineTokenAt s = None"
      unfolding s first_lineRe lineTokenAt_line
      by (simp_all add: Let_def ws_def t2_def ds_def)
    then show ?thesis by (simp add: matchAt_first)
  next
    case False
    then have f: "first lineRe (p, s, None) = Some (lastOf (lastOf (Some CHR ''e'') ws) ds, t3, Some ds)"
      and lt: "lineTokenAt s = Some (''line'' @ ws @ ds, ds)"
      unfolding s first_lineRe lineTokenAt_line
      by (simp_all add: Let_def ws_def t2_def ds_def t3_def)
    have s': "s = (''line'' @ ws @ ds) @ t3" unfolding s by (subst t1) simp
    have dr: "drop (length (''line'' @ ws @ ds)) s = t3"
      by (subst s') simp
    show ?thesis
      unfolding lt using matchAt_from_first[OF f s'] dr by simp
  qed
qed

lemma matchAt_lineSpRe:
  "matchAt lineSpRe p s = map_option (\<lambda>(m, ds). (m, Some ds, drop (length m) s)) (lineSpTokenAt s)"
proof (cases "prefix ''line '' s")
  case False
  have "first lineSpRe (p, s, None) = None"
    unfolding lineSpRe_def using False by (simp only: first_Seq_Lit if_False)
  with False show ?thesis by (simp add: matchAt_first lineSpTokenAt_def stripPrefix_def)
next
  case True
  then obtain t1 where s: "s = ''line '' @ t1" by (auto simp: prefix_def)
  define ds where "ds = takeWhile isDigit t1"
  define t2 where "t2 = dropWhile isDigit t1"
  have 1: "first lineSpRe (p, s, None) = first (Grp (Plus (Cls isDigit))) (Some CHR '' '', t1, None)"
    unfolding lineSpRe_def s by (subst first_Seq_Lit) simp
  show ?thesis
  proof (cases "ds = []")
    case True
    then have f0: "first lineSpRe (p, s, None) = None"
      by (simp add: 1 first_GrpPlus ds_def)
    have lt0: "lineSpTokenAt s = None"
      using True by (simp add: lineSpTokenAt_def stripPrefix_def s ds_def)
    show ?thesis by (simp add: matchAt_first f0 lt0)
  next
    case False
    then have f: "first lineSpRe (p, s, None) = Some (lastOf (Some CHR '' '') ds, t2, Some ds)"
      by (simp add: 1 first_GrpPlus ds_def t2_def)
    have lt: "lineSpTokenAt s = Some (''line '' @ ds, ds)"
      using False by (simp add: lineSpTokenAt_def stripPrefix_def s ds_def Let_def)
    have s': "s = (''line '' @ ds) @ t2" unfolding s by (simp add: ds_def t2_def)
    have dr: "drop (length (''line '' @ ds)) s = t2" by (subst s') simp
    show ?thesis
      unfolding lt using matchAt_from_first[OF f s'] dr by simp
  qed
qed

text \<open>A run of class characters, cut so that a literal ending outside the class follows.\<close>

lemma run_then_lit_star:
  assumes a: "\<forall>c\<in>set a. P c" and z: "\<not> P z"
  shows "ms (Seq (Star (Cls P)) (Seq (Lit (a @ [z])) R)) (p, s, g) =
           (if suffix a (takeWhile P s) \<and> prefix [z] (dropWhile P s)
            then ms R (Some z, tl (dropWhile P s), g) else [])"
proof (induction s arbitrary: p)
  case Nil
  then show ?case by (simp add: ms_Star_Cls_Nil ms_Lit)
next
  case (Cons x xs)
  let ?L = "Seq (Lit (a @ [z])) R"
  have here: "ms ?L (p, x # xs, g) =
                (if prefix (a @ [z]) (x # xs) then ms R (Some z, drop (Suc (length a)) (x # xs), g) else [])"
    by (simp add: ms_Lit lastOf_def)
  show ?case
  proof (cases "P x")
    case False
    have pre: "prefix (a @ [z]) (x # xs) = (a = [] \<and> x = z)"
    proof (cases a)
      case Nil
      then show ?thesis by auto
    next
      case (Cons c cs)
      with a have "P c" by simp
      with False Cons show ?thesis by auto
    qed
    have "ms (Seq (Star (Cls P)) ?L) (p, x # xs, g) = ms ?L (p, x # xs, g)"
      using False by (simp add: ms_Star_Cls_Cons)
    also have "\<dots> = (if a = [] \<and> x = z then ms R (Some z, drop (Suc (length a)) (x # xs), g) else [])"
      unfolding here pre ..
    also have "\<dots> = (if suffix a (takeWhile P (x # xs)) \<and> prefix [z] (dropWhile P (x # xs))
            then ms R (Some z, tl (dropWhile P (x # xs)), g) else [])"
      using False by auto
    finally show ?thesis .
  next
    case True
    have star: "ms (Seq (Star (Cls P)) ?L) (p, x # xs, g) =
                  ms (Seq (Star (Cls P)) ?L) (Some x, xs, g) @ ms ?L (p, x # xs, g)"
      using True by (simp add: ms_Star_Cls_Cons)
    show ?thesis
    proof (cases "prefix (a @ [z]) (x # xs)")
      case pt: True
      then obtain r where r: "x # xs = a @ z # r" by (auto simp: prefix_def)
      have tw: "takeWhile P (x # xs) = a" "dropWhile P (x # xs) = z # r"
        unfolding r using a z by (simp_all add: takeWhile_append2 dropWhile_append2)
      from tw True have tw': "takeWhile P xs = tl a" "a \<noteq> []" by (auto split: if_splits)
      have ns: "\<not> suffix a (takeWhile P xs)"
        using tw' suffix_length_le[of a "tl a"] by (cases a) auto
      have dr: "drop (Suc (length a)) (x # xs) = r" unfolding r by simp
      show ?thesis
        unfolding star Cons.IH[of "Some x"] here
        using pt ns tw dr by simp
    next
      case pf: False
      have eq: "(suffix a (takeWhile P (x # xs)) \<and> prefix [z] (dropWhile P (x # xs))) =
                (suffix a (takeWhile P xs) \<and> prefix [z] (dropWhile P xs))"
      proof -
        have "\<not> (a = x # takeWhile P xs \<and> prefix [z] (dropWhile P xs))"
        proof
          assume h: "a = x # takeWhile P xs \<and> prefix [z] (dropWhile P xs)"
          then obtain r where "dropWhile P xs = z # r" by (auto simp: prefix_def)
          then have "xs = takeWhile P xs @ z # r" by (metis takeWhile_dropWhile_id)
          with h have "x # xs = a @ z # r" by simp
          then have "prefix (a @ [z]) (x # xs)" by (simp add: prefix_def)
          with pf show False by simp
        qed
        then show ?thesis using True by (auto simp: suffix_Cons)
      qed
      show ?thesis
        unfolding star Cons.IH[of "Some x"] here
        using pf eq True by simp
    qed
  qed
qed

lemma run_then_lit:
  assumes a: "\<forall>c\<in>set a. P c" and z: "\<not> P z"
  shows "ms (Seq (Plus (Cls P)) (Seq (Lit (a @ [z])) R)) (p, s, g) =
           (if length a < length (takeWhile P s) \<and> suffix a (takeWhile P s) \<and> prefix [z] (dropWhile P s)
            then ms R (Some z, tl (dropWhile P s), g) else [])"
proof (cases s)
  case Nil
  then show ?thesis by (simp add: Plus_def)
next
  case (Cons x xs)
  let ?L = "Seq (Lit (a @ [z])) R"
  have "ms (Seq (Plus (Cls P)) ?L) (p, s, g) = ms (Seq (Cls P) (Seq (Star (Cls P)) ?L)) (p, s, g)"
    unfolding Plus_def by (rule ms_Seq_assoc)
  also have "\<dots> = (if P x then ms (Seq (Star (Cls P)) ?L) (Some x, xs, g) else [])"
    using Cons by simp
  finally have 1: "ms (Seq (Plus (Cls P)) ?L) (p, s, g) =
                     (if P x then ms (Seq (Star (Cls P)) ?L) (Some x, xs, g) else [])" .
  show ?thesis
  proof (cases "P x")
    case False
    then show ?thesis using Cons 1 by simp
  next
    case True
    have tw: "takeWhile P s = x # takeWhile P xs" "dropWhile P s = dropWhile P xs"
      using True Cons by simp_all
    have c: "suffix a (takeWhile P xs) = (length a < length (takeWhile P s) \<and> suffix a (takeWhile P s))"
      unfolding tw by (auto simp: suffix_Cons dest: suffix_length_le)
    have "ms (Seq (Plus (Cls P)) ?L) (p, s, g) = ms (Seq (Star (Cls P)) ?L) (Some x, xs, g)"
      by (simp only: 1 True if_True)
    also have "\<dots> = (if suffix a (takeWhile P xs) \<and> prefix [z] (dropWhile P xs)
            then ms R (Some z, tl (dropWhile P xs), g) else [])"
      by (rule run_then_lit_star[OF a z])
    also have "\<dots> = (if length a < length (takeWhile P s) \<and> suffix a (takeWhile P s) \<and> prefix [z] (dropWhile P s)
            then ms R (Some z, tl (dropWhile P s), g) else [])"
      by (simp only: c tw(2) conj_assoc)
    finally show ?thesis .
  qed
qed

text \<open>The text left and the group after the first way to match.\<close>

lemma res_lineRe:
  "map_option snd (first lineRe (p, s, g)) =
     map_option (\<lambda>(m, ds). (drop (length m) s, Some ds)) (lineTokenAt s)"
proof (cases "prefix ''line'' s")
  case False
  then show ?thesis by (simp add: first_lineRe_None lineTokenAt_None)
next
  case True
  then obtain t1 where s: "s = ''line'' @ t1" by (auto simp: prefix_def)
  have "t1 = takeWhile isSpace t1 @ takeWhile isDigit (dropWhile isSpace t1)
               @ dropWhile isDigit (dropWhile isSpace t1)" by simp
  then have "drop (length (takeWhile isSpace t1) + length (takeWhile isDigit (dropWhile isSpace t1))) t1
               = dropWhile isDigit (dropWhile isSpace t1)"
    by (metis append.assoc append_eq_conv_conj length_append)
  then show ?thesis
    unfolding s first_lineRe lineTokenAt_line by (simp add: Let_def add.commute)
qed

lemma res_dots:
  "map_option snd (first (Seq (Star (Cls isDot)) Eol) (p, s, g)) = Some (dropWhile isDot s, g)"
  by (simp add: first_dots_eol)

lemma first_Some_nonempty: "first r q = Some x \<Longrightarrow> ms r q \<noteq> []"
  unfolding first_def by (cases "ms r q") simp_all

lemma ms_dots_nonempty: "ms (Seq (Star (Cls isDot)) Eol) q \<noteq> []"
proof -
  obtain p s g where q: "q = (p, s, g)" by (cases q)
  show ?thesis unfolding q by (rule first_Some_nonempty[OF first_dots_eol])
qed

lemma res_line_dots:
  "map_option snd (first (Seq lineRe (Seq (Star (Cls isDot)) Eol)) (p, s, g)) =
     map_option (\<lambda>(m, ds). (dropWhile isDot (drop (length m) s), Some ds)) (lineTokenAt s)"
proof -
  have 1: "first (Seq lineRe (Seq (Star (Cls isDot)) Eol)) (p, s, g) =
             (case first lineRe (p, s, g) of None \<Rightarrow> None
              | Some q1 \<Rightarrow> first (Seq (Star (Cls isDot)) Eol) q1)"
    by (rule first_Seq_total) (rule ms_dots_nonempty)
  show ?thesis
  proof (cases "first lineRe (p, s, g)")
    case None
    with res_lineRe[of p s g] have "lineTokenAt s = None" by simp
    with None 1 show ?thesis by simp
  next
    case (Some q1)
    obtain p1 s1 g1 where q1: "q1 = (p1, s1, g1)" by (cases q1)
    from res_lineRe[of p s g] Some q1 obtain m ds where
      lt: "lineTokenAt s = Some (m, ds)" and s1: "s1 = drop (length m) s" and g1: "g1 = Some ds"
      by (cases "lineTokenAt s") auto
    show ?thesis
      unfolding 1 Some q1 using res_dots[of p1 s1 g1] by (simp add: lt s1 g1)
  qed
qed

lemma line_dots_not_space:
  assumes "t \<noteq> []" "isSpace (hd t)"
  shows "ms (Seq lineRe (Seq (Star (Cls isDot)) Eol)) (p', t, g) = []"
proof -
  have "\<not> prefix ''line'' t" using assms by (cases t) (auto simp: isSpace_def)
  then have "first lineRe (p', t, g) = None" by (rule first_lineRe_None)
  then have "ms lineRe (p', t, g) = []" by (simp add: first_def split: list.splits)
  then show ?thesis by simp
qed

lemma res_spaces_line_dots:
  "map_option snd (first (Seq (Plus (Cls isSpace)) (Seq lineRe (Seq (Star (Cls isDot)) Eol))) (p, s, g)) =
     (if takeWhile isSpace s = [] then None
      else map_option (\<lambda>(m, ds). (dropWhile isDot (drop (length m) (dropWhile isSpace s)), Some ds))
             (lineTokenAt (dropWhile isSpace s)))"
proof -
  have "first (Seq (Plus (Cls isSpace)) (Seq lineRe (Seq (Star (Cls isDot)) Eol))) (p, s, g) =
          (if takeWhile isSpace s = [] then None
           else first (Seq lineRe (Seq (Star (Cls isDot)) Eol))
                  (lastOf p (takeWhile isSpace s), dropWhile isSpace s, g))"
    by (rule first_Seq_Plus) (rule line_dots_not_space)
  then show ?thesis by (simp add: res_line_dots)
qed

lemma first_from_ms_if: "ms r q = (if c then ms r' q' else []) \<Longrightarrow> first r q = (if c then first r' q' else None)"
  by (simp add: first_def)

lemma res_word_exception:
  "map_option snd (first (Seq (Plus (Cls isWord)) (Seq (Lit ''Exception:'')
       (Seq (Plus (Cls isSpace)) (Seq lineRe (Seq (Star (Cls isDot)) Eol))))) (p, s, g)) =
     (let W = takeWhile isWord s; t2 = dropWhile isWord s in
      if length ''Exception'' < length W \<and> suffix ''Exception'' W \<and> prefix '':'' t2 then
        (if takeWhile isSpace (tl t2) = [] then None
         else map_option (\<lambda>(m, ds). (dropWhile isDot (drop (length m) (dropWhile isSpace (tl t2))), Some ds))
                (lineTokenAt (dropWhile isSpace (tl t2))))
      else None)"
proof -
  let ?R2 = "Seq (Plus (Cls isSpace)) (Seq lineRe (Seq (Star (Cls isDot)) Eol))"
  have a: "\<forall>c\<in>set ''Exception''. isWord c"
    by (simp add: isWord_def isLetter_def)
  have z: "\<not> isWord (CHR '':'')"
    by (simp add: isWord_def isLetter_def isDigit_def)
  have "ms (Seq (Plus (Cls isWord)) (Seq (Lit (''Exception'' @ '':'')) ?R2)) (p, s, g) =
          (if length ''Exception'' < length (takeWhile isWord s) \<and> suffix ''Exception'' (takeWhile isWord s)
                \<and> prefix '':'' (dropWhile isWord s)
           then ms ?R2 (Some (CHR '':''), tl (dropWhile isWord s), g) else [])"
    by (rule run_then_lit[OF a z])
  then have "first (Seq (Plus (Cls isWord)) (Seq (Lit (''Exception'' @ '':'')) ?R2)) (p, s, g) =
          (if length ''Exception'' < length (takeWhile isWord s) \<and> suffix ''Exception'' (takeWhile isWord s)
                \<and> prefix '':'' (dropWhile isWord s)
           then first ?R2 (Some (CHR '':''), tl (dropWhile isWord s), g) else None)"
    by (rule first_from_ms_if)
  moreover have "''Exception'' @ '':'' = ''Exception:''" by simp
  ultimately have "first (Seq (Plus (Cls isWord)) (Seq (Lit ''Exception:'') ?R2)) (p, s, g) =
          (if length ''Exception'' < length (takeWhile isWord s) \<and> suffix ''Exception'' (takeWhile isWord s)
                \<and> prefix '':'' (dropWhile isWord s)
           then first ?R2 (Some (CHR '':''), tl (dropWhile isWord s), g) else None)"
    by (simp only:)
  then show ?thesis
    by (simp only: Let_def res_spaces_line_dots option.map if_distrib[of "map_option snd"])
qed

lemma vyperRe_unfold:
  "vyperRe = Seq (Lit ''vyper.exceptions.'') (Seq (Plus (Cls isWord)) (Seq (Lit ''Exception:'')
       (Seq (Plus (Cls isSpace)) (Seq lineRe (Seq (Star (Cls isDot)) Eol)))))"
  by (simp only: vyperRe_def lineRe_def)

lemma res_vyperRe:
  "map_option snd (first vyperRe (p, s, g)) =
     (if prefix ''vyper.exceptions.'' s then
        (let t1 = drop (length ''vyper.exceptions.'') s; W = takeWhile isWord t1; t2 = dropWhile isWord t1 in
         if length ''Exception'' < length W \<and> suffix ''Exception'' W \<and> prefix '':'' t2 then
           (if takeWhile isSpace (tl t2) = [] then None
            else map_option (\<lambda>(m, ds). (dropWhile isDot (drop (length m) (dropWhile isSpace (tl t2))), Some ds))
                   (lineTokenAt (dropWhile isSpace (tl t2))))
         else None)
      else None)"
proof (cases "prefix ''vyper.exceptions.'' s")
  case False
  then show ?thesis
    unfolding vyperRe_unfold by (simp only: first_Seq_Lit if_False option.map)
next
  case True
  then have "first vyperRe (p, s, g) =
      first (Seq (Plus (Cls isWord)) (Seq (Lit ''Exception:'')
       (Seq (Plus (Cls isSpace)) (Seq lineRe (Seq (Star (Cls isDot)) Eol)))))
        (lastOf p ''vyper.exceptions.'', drop (length ''vyper.exceptions.'') s, g)"
    unfolding vyperRe_unfold by (simp only: first_Seq_Lit if_True)
  then show ?thesis
    using True by (simp only: res_word_exception if_True Let_def)
qed

lemma matchAt_res:
  "matchAt r p s = map_option (\<lambda>(s', g). (take (length s - length s') s, g, s'))
                     (map_option snd (first r (p, s, None)))"
  by (cases "first r (p, s, None)") (auto simp: matchAt_first)

lemma lineTokenAt_Some:
  assumes "lineTokenAt t = Some (lt, ds)"
  shows "t = lt @ drop (length lt) t"
proof -
  from assms obtain t1 where t: "t = ''line'' @ t1"
    by (auto simp: lineTokenAt_def stripPrefix_def prefix_def split: if_splits)
  from assms have lt: "lt = ''line'' @ takeWhile isSpace t1 @ takeWhile isDigit (dropWhile isSpace t1)"
    unfolding t lineTokenAt_line by (auto simp: Let_def split: if_splits)
  have "t1 = takeWhile isSpace t1 @ takeWhile isDigit (dropWhile isSpace t1)
               @ dropWhile isDigit (dropWhile isSpace t1)" by simp
  then have "t = lt @ dropWhile isDigit (dropWhile isSpace t1)"
    unfolding t lt by (metis append.assoc)
  then show ?thesis by (metis append_eq_conv_conj)
qed

lemma stripPrefix_Some: "stripPrefix w s = Some t \<longleftrightarrow> s = w @ t"
  by (auto simp: stripPrefix_def prefix_def)

lemma stripPrefix_None: "stripPrefix w s = None \<longleftrightarrow> \<not> prefix w s"
  by (auto simp: stripPrefix_def)

lemma take_drop_app: "s = m @ r \<Longrightarrow> take (length s - length r) s = m \<and> drop (length m) s = r"
  by simp

lemma matchAt_vyperRe:
  "matchAt vyperRe p s = map_option (\<lambda>(m, ds). (m, Some ds, drop (length m) s)) (signatureAt s)"
proof (cases "prefix ''vyper.exceptions.'' s")
  case False
  then show ?thesis
    by (simp add: matchAt_res res_vyperRe signatureAt_def stripPrefix_def)
next
  case True
  define t1 where "t1 = drop (length ''vyper.exceptions.'') s"
  define W where "W = takeWhile isWord t1"
  define t2 where "t2 = dropWhile isWord t1"
  have s: "s = ''vyper.exceptions.'' @ t1"
    using True unfolding t1_def by (metis append_eq_conv_conj prefix_def)
  have sp1: "stripPrefix ''vyper.exceptions.'' s = Some t1"
    by (simp only: stripPrefix_Some s)
  have t1: "t1 = W @ t2" by (simp add: W_def t2_def)
  show ?thesis
  proof (cases "length ''Exception'' < length W \<and> suffix ''Exception'' W \<and> prefix '':'' t2")
    case False
    then have "map_option snd (first vyperRe (p, s, None)) = None"
      using True unfolding res_vyperRe Let_def t1_def[symmetric] W_def[symmetric] t2_def[symmetric]
      by (simp only: if_True if_False)
    moreover have "signatureAt s = None"
      using False unfolding signatureAt_def sp1 option.case Let_def W_def[symmetric] t2_def[symmetric]
      by (auto simp: stripPrefix_def)
    ultimately show ?thesis by (simp only: matchAt_res option.map)
  next
    case c2: True
    define t3 where "t3 = tl t2"
    define ws where "ws = takeWhile isSpace t3"
    define t4 where "t4 = dropWhile isSpace t3"
    have t2: "t2 = '':'' @ t3" using c2 unfolding t3_def by (cases t2) auto
    have sp2: "stripPrefix '':'' t2 = Some t3" by (simp only: stripPrefix_Some t2)
    have t3: "t3 = ws @ t4" by (simp add: ws_def t4_def)
    have r: "map_option snd (first vyperRe (p, s, None)) =
               (if ws = [] then None
                else map_option (\<lambda>(m, ds). (dropWhile isDot (drop (length m) t4), Some ds)) (lineTokenAt t4))"
      using True c2 unfolding res_vyperRe Let_def t1_def[symmetric] W_def[symmetric] t2_def[symmetric]
        t3_def[symmetric] ws_def[symmetric] t4_def[symmetric]
      by (simp only: if_True simp_thms)
    have g: "signatureAt s =
               (if ws = [] then None
                else (case lineTokenAt t4 of None \<Rightarrow> None
                      | Some (lt, ds) \<Rightarrow> Some (''vyper.exceptions.'' @ W @ '':'' @ ws @ lt
                                    @ takeWhile isDot (drop (length lt) t4), ds)))"
      using c2 unfolding signatureAt_def sp1 option.case Let_def W_def[symmetric] t2_def[symmetric]
        sp2 ws_def[symmetric] t4_def[symmetric]
      by (simp only: simp_thms if_False)
    show ?thesis
    proof (cases "ws = []")
      case True
      then show ?thesis unfolding matchAt_res r g by simp
    next
      case wsne: False
      show ?thesis
      proof (cases "lineTokenAt t4")
        case None
        then show ?thesis unfolding matchAt_res r g using wsne by simp
      next
        case (Some x)
        obtain lt ds where x: "x = (lt, ds)" by (cases x)
        have lt: "lineTokenAt t4 = Some (lt, ds)" using Some x by simp
        define rest where "rest = drop (length lt) t4"
        have t4: "t4 = lt @ rest" unfolding rest_def by (rule lineTokenAt_Some[OF lt])
        have "rest = takeWhile isDot rest @ dropWhile isDot rest" by simp
        then have "s = (''vyper.exceptions.'' @ W @ '':'' @ ws @ lt @ takeWhile isDot rest) @ dropWhile isDot rest"
          unfolding s t1 t2 t3 t4 by (metis append.assoc)
        note td = take_drop_app[OF this]
        have r': "map_option snd (first vyperRe (p, s, None)) = Some (dropWhile isDot rest, Some ds)"
          unfolding r lt rest_def using wsne by simp
        have g': "signatureAt s = Some (''vyper.exceptions.'' @ W @ '':'' @ ws @ lt @ takeWhile isDot rest, ds)"
          unfolding g lt rest_def using wsne by simp
        show ?thesis
          unfolding matchAt_res r' g' using td by (simp only: option.map prod.case)
      qed
    qed
  qed
qed

lemma exec_firstAt:
  assumes "\<And>p s. matchAt r p s = map_option (\<lambda>(m, ds). (m, Some ds, drop (length m) s)) (f s)"
  shows "exec r p e = map_option (\<lambda>(m, ds). (m, Some ds)) (firstAt f e)"
proof (induction e arbitrary: p)
  case Nil
  show ?case by (cases "f []") (auto simp: assms)
next
  case (Cons c cs)
  show ?case by (cases "f (c # cs)") (auto simp: assms Cons.IH)
qed

lemmas exec_lineRe = exec_firstAt[of lineRe lineTokenAt, OF matchAt_lineRe]
lemmas exec_lineSpRe = exec_firstAt[of lineSpRe lineSpTokenAt, OF matchAt_lineSpRe]
lemmas exec_vyperRe = exec_firstAt[of vyperRe signatureAt, OF matchAt_vyperRe]

subsection \<open>The extractor in terms of the tokens\<close>

lemma bitLength_le_iff: "bitLength n \<le> k \<longleftrightarrow> n < 2 ^ k"
proof (induction k arbitrary: n)
  case 0
  show ?case by (subst bitLength.simps) simp
next
  case (Suc k)
  have "bitLength n \<le> Suc k \<longleftrightarrow> n = 0 \<or> bitLength (n div 2) \<le> k"
    by (subst bitLength.simps) simp
  also have "\<dots> \<longleftrightarrow> n = 0 \<or> n div 2 < 2 ^ k" by (simp only: Suc.IH)
  also have "\<dots> \<longleftrightarrow> n < 2 ^ Suc k" by auto
  finally show ?case .
qed

lemma bitLength_eq: "2 ^ k \<le> n \<Longrightarrow> n < 2 ^ Suc k \<Longrightarrow> bitLength n = Suc k"
  using bitLength_le_iff[of n k] bitLength_le_iff[of n "Suc k"] by simp

lemma toNumber_small: "n < 2 ^ 53 \<Longrightarrow> toNumber n = Num n"
  by (simp add: toNumber_def bitLength_le_iff)

lemma toNumber_not_NaN: "toNumber n \<noteq> NaN"
  by (simp add: toNumber_def Let_def)

lemma decimal_snoc: "decimal (ds @ [c]) = 10 * decimal ds + digitVal c"
  by (simp add: decimal_def)

lemma decimal_zeros: "decimal (ds @ replicate k (CHR ''0'')) = decimal ds * 10 ^ k"
proof (induction k)
  case 0
  show ?case by simp
next
  case (Suc k)
  have "decimal (ds @ replicate (Suc k) (CHR ''0'')) = decimal ((ds @ replicate k (CHR ''0'')) @ [CHR ''0''])"
    by (simp only: replicate_Suc replicate_append_same append_assoc append_Cons append_Nil flip: replicate_append_same)
  also have "\<dots> = 10 * decimal (ds @ replicate k (CHR ''0''))"
    by (simp only: decimal_snoc) (simp add: digitVal_def)
  finally show ?case by (simp add: Suc.IH)
qed

lemma toNumber_2_53_1: "toNumber 9007199254740993 = Num 9007199254740992"
proof -
  have b: "bitLength 9007199254740993 = Suc 53"
    by (rule bitLength_eq) simp_all
  show ?thesis unfolding toNumber_def b by (simp add: Let_def)
qed

lemma toNumber_huge:
  assumes "2 ^ 1024 \<le> n"
  shows "toNumber n = Infinity"
proof -
  define b where "b = bitLength n"
  define e where "e = b - 53"
  have nb: "\<not> b \<le> 1024" using assms bitLength_le_iff[of n 1024] by (simp add: b_def)
  have "\<not> bitLength n \<le> b - 1" using nb by (simp add: b_def)
  then have lo: "2 ^ (b - 1) \<le> n" by (simp add: bitLength_le_iff)
  have be: "b - 1 = 52 + e" using nb by (simp add: e_def)
  have p: "(2::nat) ^ (b - 1) = 2 ^ 52 * 2 ^ e" unfolding be by (rule power_add)
  have q: "2 ^ 52 \<le> n div 2 ^ e"
    using lo unfolding p by (simp add: less_eq_div_iff_mult_less_eq)
  have big: "(2::nat) ^ 1024 \<le> 2 ^ (b - 1)"
    by (rule power_increasing) (use nb in simp_all)
  have v: "2 ^ 1024 \<le> q' * 2 ^ e" if "n div 2 ^ e \<le> q'" for q'
  proof -
    have "(2::nat) ^ 1024 \<le> 2 ^ 52 * 2 ^ e" using big unfolding p .
    also have "\<dots> \<le> q' * 2 ^ e" using q that by (intro mult_le_mono1) simp
    finally show ?thesis .
  qed
  have n53: "\<not> b \<le> 53" using nb by simp
  show ?thesis
    unfolding toNumber_def b_def[symmetric] Let_def e_def[symmetric]
    using n53 v[of "n div 2 ^ e"] v[of "n div 2 ^ e + 1"] by (simp only: if_False if_True) (simp split: if_splits)
qed

lemma ten_309: "(2::nat) ^ 1024 \<le> 10 ^ 309"
  by simp

lemma extractLineNumber_closed:
  "extractLineNumber e = (case firstAt lineTokenAt e of None \<Rightarrow> Num 1 | Some (m, ds) \<Rightarrow> toNumber (decimal ds))"
proof (cases "firstAt lineTokenAt e")
  case None
  then show ?thesis by (simp add: extractLineNumber_def exec_lineRe)
next
  case (Some x)
  obtain m ds where x: "x = (m, ds)" by (cases x)
  have ex: "exec lineRe None e = Some (m, Some ds)" by (simp add: exec_lineRe Some x)
  from exec_shape[OF ex] obtain post p p'
    where "(p', post, Some ds) \<in> set (ms lineRe (p, m @ post, None))" by blast
  from lineRe_shape[OF this] have "ds \<noteq> []" "\<forall>c\<in>set ds. isDigit c" by auto
  then show ?thesis by (simp add: extractLineNumber_def ex Some x parseInt_digits)
qed

lemma lineSp_closed:
  "(case exec lineSpRe None e of None \<Rightarrow> d | Some (m, g) \<Rightarrow> parseInt g) =
   (case firstAt lineSpTokenAt e of None \<Rightarrow> d | Some (m, ds) \<Rightarrow> toNumber (decimal ds))"
proof (cases "firstAt lineSpTokenAt e")
  case None
  then show ?thesis by (simp add: exec_lineSpRe)
next
  case (Some x)
  obtain m ds where x: "x = (m, ds)" by (cases x)
  have ex: "exec lineSpRe None e = Some (m, Some ds)" by (simp add: exec_lineSpRe Some x)
  from lineSp_cases[OF ex] have "ds \<noteq> []" "\<forall>c\<in>set ds. isDigit c" by auto
  then show ?thesis by (simp add: ex Some x parseInt_digits)
qed

lemma signature_found:
  assumes "firstAt signatureAt e = Some (m, ds)"
  shows "exec vyperRe None e = Some (m, Some ds)" "parseInt (Some ds) = toNumber (decimal ds)"
    "\<exists>pre post w ws ws' r. e = pre @ m @ post
           \<and> (post = [] \<or> (\<exists>x xs. post = x # xs \<and> isLineTerm x))
           \<and> m = ''vyper.exceptions.'' @ w @ ''Exception:'' @ ws @ ''line'' @ ws' @ ds @ r
           \<and> w \<noteq> [] \<and> (\<forall>c\<in>set w. isWord c)
           \<and> ws \<noteq> [] \<and> (\<forall>c\<in>set ws. isSpace c)
           \<and> ws' \<noteq> [] \<and> (\<forall>c\<in>set ws'. isSpace c)
           \<and> ds \<noteq> [] \<and> (\<forall>c\<in>set ds. isDigit c)
           \<and> (\<forall>c\<in>set r. \<not> isLineTerm c)"
proof -
  show ex: "exec vyperRe None e = Some (m, Some ds)" by (simp add: exec_vyperRe assms)
  from vyper_cases[OF ex] obtain pre post w ws ws' ds' r where sh: "e = pre @ m @ post"
      "post = [] \<or> (\<exists>x xs. post = x # xs \<and> isLineTerm x)"
      "m = ''vyper.exceptions.'' @ w @ ''Exception:'' @ ws @ ''line'' @ ws' @ ds' @ r"
      "w \<noteq> []" "\<forall>c\<in>set w. isWord c" "ws \<noteq> []" "\<forall>c\<in>set ws. isSpace c"
      "ws' \<noteq> []" "\<forall>c\<in>set ws'. isSpace c" "ds' \<noteq> []" "\<forall>c\<in>set ds'. isDigit c"
      "\<forall>c\<in>set r. \<not> isLineTerm c"
    and g: "Some ds = Some ds'"
    by blast
  from g have d: "ds' = ds" by simp
  from sh(10,11) show "parseInt (Some ds) = toNumber (decimal ds)"
    unfolding d by (rule parseInt_digits)
  from sh show "\<exists>pre post w ws ws' r. e = pre @ m @ post
           \<and> (post = [] \<or> (\<exists>x xs. post = x # xs \<and> isLineTerm x))
           \<and> m = ''vyper.exceptions.'' @ w @ ''Exception:'' @ ws @ ''line'' @ ws' @ ds @ r
           \<and> w \<noteq> [] \<and> (\<forall>c\<in>set w. isWord c)
           \<and> ws \<noteq> [] \<and> (\<forall>c\<in>set ws. isSpace c)
           \<and> ws' \<noteq> [] \<and> (\<forall>c\<in>set ws'. isSpace c)
           \<and> ds \<noteq> [] \<and> (\<forall>c\<in>set ds. isDigit c)
           \<and> (\<forall>c\<in>set r. \<not> isLineTerm c)"
    unfolding d by blast
qed

lemma parse_syntax_closed:
  "syntaxErrorLine \<in> set (splitLines e) \<Longrightarrow>
     parseErrorMessage e = \<lparr> shortmsg = ''SyntaxError: invalid syntax'',
        lineNr = (case firstAt lineSpTokenAt e of
                    Some (m, ds) \<Rightarrow> toNumber (decimal ds)
                  | None \<Rightarrow> (case firstAt lineTokenAt e of
                                Some (m, ds) \<Rightarrow> toNumber (decimal ds)
                              | None \<Rightarrow> Num 1)) \<rparr>"
  unfolding parse_syntax lineSp_closed extractLineNumber_closed
  by (simp add: syntaxErrorLine_def split: option.splits)

lemma parse_signature_closed:
  "syntaxErrorLine \<notin> set (splitLines e) \<Longrightarrow> firstAt signatureAt e = Some (m, ds) \<Longrightarrow>
     parseErrorMessage e = \<lparr> shortmsg = m, lineNr = toNumber (decimal ds) \<rparr>"
  by (simp add: parse_other signature_found(1,2))

lemma parse_fallback_closed:
  "syntaxErrorLine \<notin> set (splitLines e) \<Longrightarrow> firstAt signatureAt e = None \<Longrightarrow>
     parseErrorMessage e = \<lparr> shortmsg = firstLine e,
        lineNr = (case firstAt lineTokenAt e of
                    Some (m, ds) \<Rightarrow> toNumber (decimal ds)
                  | None \<Rightarrow> Num 1) \<rparr>"
  by (simp add: parse_other exec_vyperRe extractLineNumber_closed split: option.splits)

lemma lineNr_not_NaN: "lineNr (parseErrorMessage e) \<noteq> NaN"
proof (cases "syntaxErrorLine \<in> set (splitLines e)")
  case True
  show ?thesis unfolding parse_syntax_closed[OF True]
    by (auto simp: toNumber_not_NaN split: option.splits)
next
  case False
  show ?thesis
  proof (cases "firstAt signatureAt e")
    case None
    show ?thesis unfolding parse_fallback_closed[OF False None]
      by (auto simp: toNumber_not_NaN split: option.splits)
  next
    case (Some x)
    obtain m ds where x: "x = (m, ds)" by (cases x)
    show ?thesis using parse_signature_closed[OF False Some[unfolded x]]
      by (simp add: toNumber_not_NaN)
  qed
qed

section \<open>The diagnostic extractor: the claims\<close>

text \<open>
  C8. The extractor tries its patterns in a fixed order and the first that applies wins.
  (1) When a line of the error text is \<open>SyntaxError: invalid syntax\<close>, the message is that
  fixed text; the line number is the \<open>N\<close> of the leftmost \<open>line N\<close> with one space, else
  of the leftmost \<open>line N\<close> with any white space, else 1.
  (2) Otherwise, when the text holds an exception signature
  \<open>vyper.exceptions.<Name>Exception:\<close>, white space, \<open>line\<close>, white space, \<open>N\<close>, the message
  is the text of the leftmost one, from \<open>vyper.exceptions.\<close> to the end of the line on which
  \<open>N\<close> stands, and the line number is its \<open>N\<close>.
  In both cases \<open>N\<close> is read as a number of the language: exactly below \<open>2^53\<close>, rounded
  to the nearest representable number from there on.  The message of (2) is the text that
  matched, not the line around it: it starts at \<open>vyper.exceptions.\<close> even in the middle of
  a line, and runs over a line break when one stands in the white space of the signature.
  The example of the specification is an instance.
\<close>

theorem parseErrorMessage_first_match_wins:
  "(syntaxErrorLine \<in> set (splitLines e) \<longrightarrow>
      parseErrorMessage e = \<lparr> shortmsg = ''SyntaxError: invalid syntax'',
        lineNr = (case firstAt lineSpTokenAt e of
                    Some (m, ds) \<Rightarrow> toNumber (decimal ds)
                  | None \<Rightarrow> (case firstAt lineTokenAt e of
                                Some (m, ds) \<Rightarrow> toNumber (decimal ds)
                              | None \<Rightarrow> Num 1)) \<rparr>)
 \<and> (syntaxErrorLine \<notin> set (splitLines e) \<longrightarrow>
      (\<forall>m ds. firstAt signatureAt e = Some (m, ds) \<longrightarrow>
         parseErrorMessage e = \<lparr> shortmsg = m, lineNr = toNumber (decimal ds) \<rparr>
       \<and> (\<exists>pre post w ws ws' r. e = pre @ m @ post
           \<and> (post = [] \<or> (\<exists>x xs. post = x # xs \<and> isLineTerm x))
           \<and> m = ''vyper.exceptions.'' @ w @ ''Exception:'' @ ws @ ''line'' @ ws' @ ds @ r
           \<and> w \<noteq> [] \<and> (\<forall>c\<in>set w. isWord c)
           \<and> ws \<noteq> [] \<and> (\<forall>c\<in>set ws. isSpace c)
           \<and> ws' \<noteq> [] \<and> (\<forall>c\<in>set ws'. isSpace c)
           \<and> ds \<noteq> [] \<and> (\<forall>c\<in>set ds. isDigit c)
           \<and> (\<forall>c\<in>set r. \<not> isLineTerm c))))
 \<and> (\<forall>ds. decimal ds < 2 ^ 53 \<longrightarrow> toNumber (decimal ds) = Num (decimal ds))
\<and> parseErrorMessage (''SyntaxError: invalid syntax'' @ [nl] @ ''  line 12'')
      = \<lparr> shortmsg = ''SyntaxError: invalid syntax'', lineNr = Num 12 \<rparr>
 \<and> parseErrorMessage (''Traceback (most recent call last):'' @ [nl]
        @ ''vyper.exceptions.StructureException: line 7 invalid type'' @ [nl] @ ''  x: int129'')
      = \<lparr> shortmsg = ''vyper.exceptions.StructureException: line 7 invalid type'', lineNr = Num 7 \<rparr>"
proof (intro conjI impI allI)
  assume "syntaxErrorLine \<in> set (splitLines e)"
  then show "parseErrorMessage e = \<lparr> shortmsg = ''SyntaxError: invalid syntax'',
        lineNr = (case firstAt lineSpTokenAt e of
                    Some (m, ds) \<Rightarrow> toNumber (decimal ds)
                  | None \<Rightarrow> (case firstAt lineTokenAt e of
                                Some (m, ds) \<Rightarrow> toNumber (decimal ds)
                              | None \<Rightarrow> Num 1)) \<rparr>"
    by (rule parse_syntax_closed)
next
  fix m ds
  assume "syntaxErrorLine \<notin> set (splitLines e)" and "firstAt signatureAt e = Some (m, ds)"
  then show "parseErrorMessage e = \<lparr> shortmsg = m, lineNr = toNumber (decimal ds) \<rparr>"
    by (rule parse_signature_closed)
next
  fix m ds
  assume "firstAt signatureAt e = Some (m, ds)"
  then show "\<exists>pre post w ws ws' r. e = pre @ m @ post
           \<and> (post = [] \<or> (\<exists>x xs. post = x # xs \<and> isLineTerm x))
           \<and> m = ''vyper.exceptions.'' @ w @ ''Exception:'' @ ws @ ''line'' @ ws' @ ds @ r
           \<and> w \<noteq> [] \<and> (\<forall>c\<in>set w. isWord c)
           \<and> ws \<noteq> [] \<and> (\<forall>c\<in>set ws. isSpace c)
           \<and> ws' \<noteq> [] \<and> (\<forall>c\<in>set ws'. isSpace c)
           \<and> ds \<noteq> [] \<and> (\<forall>c\<in>set ds. isDigit c)
           \<and> (\<forall>c\<in>set r. \<not> isLineTerm c)"
    by (rule signature_found(3))
next
  fix ds
  assume "decimal ds < 2 ^ 53"
  then show "toNumber (decimal ds) = Num (decimal ds)" by (rule toNumber_small)
next
  show "parseErrorMessage (''SyntaxError: invalid syntax'' @ [nl] @ ''  line 12'')
      = \<lparr> shortmsg = ''SyntaxError: invalid syntax'', lineNr = Num 12 \<rparr>"
    by code_simp
next
  show "parseErrorMessage (''Traceback (most recent call last):'' @ [nl]
        @ ''vyper.exceptions.StructureException: line 7 invalid type'' @ [nl] @ ''  x: int129'')
      = \<lparr> shortmsg = ''vyper.exceptions.StructureException: line 7 invalid type'', lineNr = Num 7 \<rparr>"
    by code_simp
qed

theorem parseErrorMessage_first_match_wins_witness:
  "parseErrorMessage (''SyntaxError: invalid syntax'' @ [nl] @ ''at line  3, line 12'')
     = \<lparr> shortmsg = ''SyntaxError: invalid syntax'', lineNr = Num 12 \<rparr>
 \<and> parseErrorMessage (''in f:'' @ [nl] @ ''  vyper.exceptions.StructureException: line 7 invalid type'' @ [nl] @ ''x'')
     = \<lparr> shortmsg = ''vyper.exceptions.StructureException: line 7 invalid type'', lineNr = Num 7 \<rparr>"
proof -
  define a where "a = ''SyntaxError: invalid syntax'' @ [nl] @ ''at line  3, line 12''"
  define b where "b = ''in f:'' @ [nl] @ ''  vyper.exceptions.StructureException: line 7 invalid type'' @ [nl] @ ''x''"
  have a1: "syntaxErrorLine \<in> set (splitLines a)" unfolding a_def by code_simp
  have a2: "firstAt lineSpTokenAt a = Some (''line 12'', ''12'')" unfolding a_def by code_simp
  have b1: "syntaxErrorLine \<notin> set (splitLines b)" unfolding b_def by code_simp
  have b2: "firstAt signatureAt b = Some (''vyper.exceptions.StructureException: line 7 invalid type'', ''7'')"
    unfolding b_def by code_simp
  have d12: "decimal ''12'' = 12" and d7: "decimal ''7'' = 7" by code_simp+
  have l12: "decimal ''12'' < 2 ^ 53" and l7: "decimal ''7'' < 2 ^ 53" unfolding d12 d7 by simp_all
  note N = parseErrorMessage_first_match_wins[of a, THEN conjunct2, THEN conjunct2, THEN conjunct1, rule_format]
  have n12: "toNumber (decimal ''12'') = Num 12" using N[OF l12] unfolding d12 .
  have n7: "toNumber (decimal ''7'') = Num 7" using N[OF l7] unfolding d7 .
  have A: "parseErrorMessage a = \<lparr> shortmsg = ''SyntaxError: invalid syntax'', lineNr = Num 12 \<rparr>"
    using parseErrorMessage_first_match_wins[of a, THEN conjunct1, rule_format, OF a1]
    unfolding a2 by (simp only: option.case prod.case n12)
  have B: "parseErrorMessage b
     = \<lparr> shortmsg = ''vyper.exceptions.StructureException: line 7 invalid type'', lineNr = Num 7 \<rparr>"
    using parseErrorMessage_first_match_wins[of b, THEN conjunct2, THEN conjunct1, rule_format, OF b1 b2,
            THEN conjunct1]
    by (simp only: n7)
  from A B show ?thesis unfolding a_def b_def by (intro conjI)
qed

text \<open>
  The message of the signature case is not a whole line of the text, and the line number
  is not always the \<open>N\<close> that was written: a signature in the middle of a line gives the
  text from \<open>vyper.exceptions.\<close> on; a signature broken over two lines gives a message of
  two lines; and \<open>line 9007199254740993\<close> gives the line number 9007199254740992.
\<close>

theorem signature_message_counterexample:
  "parseErrorMessage ''compiler said: vyper.exceptions.StructureException: line 7 invalid type''
     = \<lparr> shortmsg = ''vyper.exceptions.StructureException: line 7 invalid type'', lineNr = Num 7 \<rparr>
 \<and> parseErrorMessage (''vyper.exceptions.StructureException:'' @ [nl] @ ''line 7 invalid type'')
     = \<lparr> shortmsg = ''vyper.exceptions.StructureException:'' @ [nl] @ ''line 7 invalid type'', lineNr = Num 7 \<rparr>
 \<and> parseErrorMessage ''vyper.exceptions.StructureException: line 9007199254740993 invalid type''
     = \<lparr> shortmsg = ''vyper.exceptions.StructureException: line 9007199254740993 invalid type'',
         lineNr = Num 9007199254740992 \<rparr>"
proof (intro conjI)
  show "parseErrorMessage ''compiler said: vyper.exceptions.StructureException: line 7 invalid type''
     = \<lparr> shortmsg = ''vyper.exceptions.StructureException: line 7 invalid type'', lineNr = Num 7 \<rparr>"
    by code_simp
  show "parseErrorMessage (''vyper.exceptions.StructureException:'' @ [nl] @ ''line 7 invalid type'')
     = \<lparr> shortmsg = ''vyper.exceptions.StructureException:'' @ [nl] @ ''line 7 invalid type'', lineNr = Num 7 \<rparr>"
    by code_simp
  define c where "c = ''vyper.exceptions.StructureException: line 9007199254740993 invalid type''"
  have c1: "syntaxErrorLine \<notin> set (splitLines c)" unfolding c_def by code_simp
  have c2: "firstAt signatureAt c = Some (c, ''9007199254740993'')" unfolding c_def by code_simp
  have d: "decimal ''9007199254740993'' = 9007199254740993" by (simp add: decimal_def digitVal_def)
  have "parseErrorMessage c = \<lparr> shortmsg = c, lineNr = Num 9007199254740992 \<rparr>"
    unfolding parse_signature_closed[OF c1 c2] d toNumber_2_53_1 ..
  then show "parseErrorMessage ''vyper.exceptions.StructureException: line 9007199254740993 invalid type''
     = \<lparr> shortmsg = ''vyper.exceptions.StructureException: line 9007199254740993 invalid type'',
         lineNr = Num 9007199254740992 \<rparr>"
    unfolding c_def .
qed

text \<open>
  C9. The extractor is total: for every text it returns a record, and its line number is
  never \<open>NaN\<close>.  When no line is \<open>SyntaxError: invalid syntax\<close> and the text holds no
  exception signature, the message is the first line of the text and the line number is the
  \<open>N\<close> of the leftmost \<open>line N\<close> in the text (any white space between), or 1 when there is
  none.  \<open>N\<close> is read as a number of the language: exactly below \<open>2^53\<close>, rounded to the
  nearest representable number from there on, and infinite beyond the range of the numbers.
  The example of the specification is an instance.
\<close>

theorem parseErrorMessage_total_with_fallback:
  "(\<exists>msg n. parseErrorMessage e = \<lparr> shortmsg = msg, lineNr = n \<rparr> \<and> n \<noteq> NaN)
 \<and> (syntaxErrorLine \<notin> set (splitLines e) \<and> firstAt signatureAt e = None \<longrightarrow>
      parseErrorMessage e = \<lparr> shortmsg = firstLine e,
        lineNr = (case firstAt lineTokenAt e of
                    Some (m, ds) \<Rightarrow> toNumber (decimal ds)
                  | None \<Rightarrow> Num 1) \<rparr>)
 \<and> (\<forall>n. n < 2 ^ 53 \<longrightarrow> toNumber n = Num n)
 \<and> parseErrorMessage (''some random crash'' @ [nl] @ ''no location info'')
      = \<lparr> shortmsg = ''some random crash'', lineNr = Num 1 \<rparr>"
proof (intro conjI impI allI)
  have "parseErrorMessage e = \<lparr> shortmsg = shortmsg (parseErrorMessage e), lineNr = lineNr (parseErrorMessage e) \<rparr>"
    by (cases "parseErrorMessage e") simp
  with lineNr_not_NaN[of e]
  show "\<exists>msg n. parseErrorMessage e = \<lparr> shortmsg = msg, lineNr = n \<rparr> \<and> n \<noteq> NaN" by blast
next
  assume "syntaxErrorLine \<notin> set (splitLines e) \<and> firstAt signatureAt e = None"
  then show "parseErrorMessage e = \<lparr> shortmsg = firstLine e,
        lineNr = (case firstAt lineTokenAt e of
                    Some (m, ds) \<Rightarrow> toNumber (decimal ds)
                  | None \<Rightarrow> Num 1) \<rparr>"
    by (elim conjE) (rule parse_fallback_closed)
next
  fix n :: nat
  assume "n < 2 ^ 53"
  then show "toNumber n = Num n" by (rule toNumber_small)
next
  show "parseErrorMessage (''some random crash'' @ [nl] @ ''no location info'')
      = \<lparr> shortmsg = ''some random crash'', lineNr = Num 1 \<rparr>"
    by code_simp
qed

theorem parseErrorMessage_total_with_fallback_witness:
  "parseErrorMessage (''some random crash'' @ [nl] @ ''no location info'')
     = \<lparr> shortmsg = ''some random crash'', lineNr = Num 1 \<rparr>
 \<and> parseErrorMessage (''crash in file x,'' @ [CHR 0x0D, nl] @ ''line  42'')
     = \<lparr> shortmsg = ''crash in file x,'', lineNr = Num 42 \<rparr>
 \<and> toNumber 42 = Num 42"
proof -
  define a where "a = ''some random crash'' @ [nl] @ ''no location info''"
  define b where "b = ''crash in file x,'' @ [CHR 0x0D, nl] @ ''line  42''"
  have a1: "syntaxErrorLine \<notin> set (splitLines a) \<and> firstAt signatureAt a = None"
    unfolding a_def by code_simp
  have a2: "firstAt lineTokenAt a = None" unfolding a_def by code_simp
  have a3: "firstLine a = ''some random crash''" unfolding a_def by code_simp
  have b1: "syntaxErrorLine \<notin> set (splitLines b) \<and> firstAt signatureAt b = None"
    unfolding b_def by code_simp
  have b2: "firstAt lineTokenAt b = Some (''line  42'', ''42'')" unfolding b_def by code_simp
  have b3: "firstLine b = ''crash in file x,''" unfolding b_def by code_simp
  have d: "decimal ''42'' = 42" by code_simp
  have lt: "(42::nat) < 2 ^ 53" by simp
  note N = parseErrorMessage_total_with_fallback[of a, THEN conjunct2, THEN conjunct2, THEN conjunct1,
             rule_format, OF lt]
  have A: "parseErrorMessage a = \<lparr> shortmsg = ''some random crash'', lineNr = Num 1 \<rparr>"
    using parseErrorMessage_total_with_fallback[of a, THEN conjunct2, THEN conjunct1, rule_format, OF a1]
    unfolding a2 a3 by (simp only: option.case)
  have B: "parseErrorMessage b = \<lparr> shortmsg = ''crash in file x,'', lineNr = Num 42 \<rparr>"
    using parseErrorMessage_total_with_fallback[of b, THEN conjunct2, THEN conjunct1, rule_format, OF b1]
    unfolding b2 b3 by (simp only: option.case prod.case d N)
  from A B N show ?thesis unfolding a_def b_def by (intro conjI)
qed

text \<open>
  The line number is not always the \<open>N\<close> that was written, and not always an integer:
  \<open>line 9007199254740993\<close> gives 9007199254740992, and a \<open>line\<close> followed by 1 and 309
  zeros gives the infinite number.
\<close>

theorem line_number_counterexample:
  "parseErrorMessage ''crash at line 9007199254740993''
     = \<lparr> shortmsg = ''crash at line 9007199254740993'', lineNr = Num 9007199254740992 \<rparr>
 \<and> parseErrorMessage (''crash at line 1'' @ replicate 309 (CHR ''0''))
     = \<lparr> shortmsg = ''crash at line 1'' @ replicate 309 (CHR ''0''), lineNr = Infinity \<rparr>"
proof (intro conjI)
  define c where "c = ''crash at line 9007199254740993''"
  have c1: "syntaxErrorLine \<notin> set (splitLines c)" unfolding c_def by code_simp
  have c2: "firstAt signatureAt c = None" unfolding c_def by code_simp
  have c3: "firstAt lineTokenAt c = Some (''line 9007199254740993'', ''9007199254740993'')"
    unfolding c_def by code_simp
  have c4: "firstLine c = c" unfolding c_def by code_simp
  have d: "decimal ''9007199254740993'' = 9007199254740993" by (simp add: decimal_def digitVal_def)
  have "parseErrorMessage c = \<lparr> shortmsg = c, lineNr = Num 9007199254740992 \<rparr>"
    unfolding parse_fallback_closed[OF c1 c2] c3 c4 option.case prod.case d toNumber_2_53_1 ..
  then show "parseErrorMessage ''crash at line 9007199254740993''
     = \<lparr> shortmsg = ''crash at line 9007199254740993'', lineNr = Num 9007199254740992 \<rparr>"
    unfolding c_def .
next
  define z where "z = replicate 309 (CHR ''0'')"
  define c where "c = ''crash at line 1'' @ z"
  have c1: "syntaxErrorLine \<notin> set (splitLines c)" unfolding c_def z_def by code_simp
  have c2: "firstAt signatureAt c = None" unfolding c_def z_def by code_simp
  have c3: "firstAt lineTokenAt c = Some (''line 1'' @ z, ''1'' @ z)"
    unfolding c_def z_def by code_simp
  have c4: "firstLine c = c" unfolding c_def z_def by code_simp
  have d: "decimal (''1'' @ z) = 10 ^ 309"
    unfolding z_def decimal_zeros by (simp add: decimal_def digitVal_def)
  have "parseErrorMessage c = \<lparr> shortmsg = c, lineNr = Infinity \<rparr>"
    unfolding parse_fallback_closed[OF c1 c2] c3 c4 option.case prod.case d toNumber_huge[OF ten_309] ..
  then show "parseErrorMessage (''crash at line 1'' @ replicate 309 (CHR ''0''))
     = \<lparr> shortmsg = ''crash at line 1'' @ replicate 309 (CHR ''0''), lineNr = Infinity \<rparr>"
    unfolding c_def z_def .
qed

section \<open>The formatter: commas\<close>




lemma detab_Cons [simp]: "detab (c # s) = (if c = tab then ''    '' else [c]) @ detab s"
  by (simp add: detab_def)

lemma detab_Nil [simp]: "detab [] = []"
  by (simp add: detab_def)








section \<open>The formatter: binary-only operators\<close>








end
